theory Spec2Isabelle
  imports Main "HOL-Library.AList" "HOL-Library.Char_ord" "HOL-Library.List_Lexorder"
    "HOL-Library.Sublist"
begin

section \<open>Data model of \<^verbatim>\<open>trie.go\<close>\<close>

text \<open>
  The package implements a radix tree over byte strings.
  \<^item> A Go \<^verbatim>\<open>byte\<close> is a \<^typ>\<open>char\<close> (eight bits), a Go \<^verbatim>\<open>string\<close> or
    \<^verbatim>\<open>[]byte\<close> key is a \<^typ>\<open>string\<close>.
  \<^item> The \<^verbatim>\<open>data []byte\<close> of a node may be the nil slice: \<open>None\<close>.
  \<^item> \<^verbatim>\<open>edges map[byte]*edge\<close> is an optional association list: \<open>None\<close> is the nil map
    (which \<^verbatim>\<open>delete\<close> tells apart from an empty map), and the order of the list stands for
    the iteration order of the map, which Go leaves unspecified.
  \<^item> Nodes are owned by exactly one edge, so the pointer structure is a tree and is
    modelled by value; a function that mutates a node returns the rebuilt node.  The
    \<^verbatim>\<open>next\<close> pointer of an edge is never nil, so the nil test at the head of
    \<^verbatim>\<open>traverse\<close> has no counterpart.
  \<^item> Edge labels are slices that can share a backing array: the two halves of a split
    label do, and so does the result of \<^verbatim>\<open>append\<close> in \<^verbatim>\<open>delete\<close> when the capacity
    allows.  Labels are modelled by their contents: an \<^verbatim>\<open>append\<close> in place writes behind
    the end of the label of the edge that is merged, where the array holds the label of
    the child edge being appended or labels of edges that were unlinked before.
  \<^item> A run-time panic is a value of type \<open>panic\<close>.
\<close>

type_synonym bytes = "string option"

datatype node = Node (isLeaf: bool) (edges: "(char \<times> edge) list option") (data: bytes)
  and edge = Edge (label: string) (next_node: node)

record trie =
  root :: node
  sorted_flag :: bool

datatype panic = NilDereference | SliceBoundsOutOfRange

text \<open>\<^verbatim>\<open>NewTrie\<close>: a non-leaf root with an empty (non-nil) map and nil data.\<close>

definition NewTrie :: trie where
  "NewTrie = \<lparr>root = Node False (Some []) None, sorted_flag = False\<rparr>"

definition Sorted :: "trie \<Rightarrow> bool \<Rightarrow> trie" where
  "Sorted t b = t\<lparr>sorted_flag := b\<rparr>"

text \<open>Reading a map: \<^verbatim>\<open>m[k]\<close> (a nil map has no entry), \<^verbatim>\<open>len(m)\<close>, and its entries.\<close>

fun lookup_edge :: "(char \<times> edge) list option \<Rightarrow> char \<Rightarrow> edge option" where
  "lookup_edge None k = None"
| "lookup_edge (Some es) k = map_of es k"

fun len_edges :: "(char \<times> edge) list option \<Rightarrow> nat" where
  "len_edges None = 0"
| "len_edges (Some es) = length es"

fun edge_list :: "(char \<times> edge) list option \<Rightarrow> (char \<times> edge) list" where
  "edge_list None = []"
| "edge_list (Some es) = es"

section \<open>\<^verbatim>\<open>getFirstMismatch\<close>\<close>

text \<open>
  The index loop runs over the shorter of the two slices; the result is the length of
  their longest common prefix.
\<close>

function getFirstMismatch_loop :: "string \<Rightarrow> string \<Rightarrow> nat \<Rightarrow> nat" where
  "getFirstMismatch_loop current lbl i =
     (if i < length current
      then (if current ! i \<noteq> lbl ! i then i else getFirstMismatch_loop current lbl (i + 1))
      else length current)"
  by pat_completeness auto
termination
  by (relation "measure (\<lambda>(current, lbl, i). length current - i)") auto

declare getFirstMismatch_loop.simps [simp del]

definition getFirstMismatch :: "string \<Rightarrow> string \<Rightarrow> nat" where
  "getFirstMismatch current lbl =
     (if length current > length lbl
      then getFirstMismatch_loop lbl current 0
      else getFirstMismatch_loop current lbl 0)"

lemma lcp_append:
  "longest_common_prefix (p @ xs) (p @ ys) = p @ longest_common_prefix xs ys"
  by (induction p) auto

lemma lcp_commute: "longest_common_prefix a b = longest_common_prefix b a"
  by (induction a b rule: longest_common_prefix.induct) auto

lemma lcp_prefix: "prefix a b \<Longrightarrow> longest_common_prefix a b = a"
  by (induction a b rule: longest_common_prefix.induct) auto

lemma gfm_loop_lcp:
  "i \<le> length c \<Longrightarrow> length c \<le> length l \<Longrightarrow> take i c = take i l \<Longrightarrow>
   getFirstMismatch_loop c l i = length (longest_common_prefix c l)"
proof (induction c l i rule: getFirstMismatch_loop.induct)
  case (1 c l i)
  show ?case
  proof (cases "i < length c")
    case True
    note lt = this
    show ?thesis
    proof (cases "c ! i = l ! i")
      case True
      with lt 1 have "take (Suc i) c = take (Suc i) l"
        by (simp add: take_Suc_conv_app_nth)
      with 1 lt True show ?thesis
        by (subst getFirstMismatch_loop.simps) simp
    next
      case False
      have c: "c = take i c @ c ! i # drop (Suc i) c" using lt by (simp add: id_take_nth_drop)
      have l: "l = take i c @ l ! i # drop (Suc i) l" using lt 1 by (metis id_take_nth_drop less_le_trans)
      have "longest_common_prefix (take i c @ c ! i # drop (Suc i) c) (take i c @ l ! i # drop (Suc i) l) = take i c"
        unfolding lcp_append using False by simp
      with c l have "longest_common_prefix c l = take i c" by simp
      with lt False show ?thesis
        by (subst getFirstMismatch_loop.simps) simp
    qed
  next
    case False
    with 1 have "i = length c" by simp
    with 1 have "prefix c l" by (metis take_all_iff take_is_prefix order_refl)
    then have "longest_common_prefix c l = c" by (rule lcp_prefix)
    with False show ?thesis by (subst getFirstMismatch_loop.simps) simp
  qed
qed

lemma getFirstMismatch_lcp:
  "getFirstMismatch a b = length (longest_common_prefix a b)"
  unfolding getFirstMismatch_def
  by (simp add: gfm_loop_lcp lcp_commute [of b a])

lemma lcp_full_iff: "length (longest_common_prefix a l) = length l \<longleftrightarrow> prefix l a"
  by (induction a l rule: longest_common_prefix.induct) auto

lemma gfm_eq_label_iff: "getFirstMismatch a l = length l \<longleftrightarrow> prefix l a"
  by (simp add: getFirstMismatch_lcp lcp_full_iff)

lemma gfm_eq_key_iff: "getFirstMismatch a l = length a \<longleftrightarrow> prefix a l"
  by (simp add: getFirstMismatch_lcp lcp_full_iff lcp_commute [of a l])

lemma gfm_le: "getFirstMismatch a l \<le> length l" "getFirstMismatch a l \<le> length a"
  unfolding getFirstMismatch_lcp
  using longest_common_prefix_prefix2 [of a l] longest_common_prefix_prefix1 [of a l]
  by (auto dest: prefix_length_le)


lemma gfm_take_label: "getFirstMismatch (take (length l) a) l = getFirstMismatch a l"
  unfolding getFirstMismatch_lcp
  by (induction a l rule: longest_common_prefix.induct) auto

lemma gfm_pos: "a \<noteq> [] \<Longrightarrow> l \<noteq> [] \<Longrightarrow> 0 < getFirstMismatch a l \<longleftrightarrow> hd a = hd l"
  unfolding getFirstMismatch_lcp
  by (cases a; cases l) auto


section \<open>\<^verbatim>\<open>getNode\<close>, \<^verbatim>\<open>HasItem\<close>, \<^verbatim>\<open>GetItem\<close>\<close>

text \<open>
  \<^verbatim>\<open>getNode\<close> returns nil (\<open>None\<close>) when no edge starts with the next byte or the edge's
  label is not matched in full.  \<^verbatim>\<open>GetItem\<close> reads the \<^verbatim>\<open>data\<close> field of the returned
  pointer without a nil check.
\<close>

lemma map_of_size_edge:
  "map_of es k = Some e \<Longrightarrow> size e < Suc (size_list (size_prod (\<lambda>_. 0) size) es)"
  by (induction es) (auto split: if_splits)

lemma lookup_edge_size:
  "lookup_edge (edges cur) k = Some e \<Longrightarrow> size (next_node e) < size cur"
  by (cases cur; cases "edges cur"; cases e) (auto dest: map_of_size_edge)

function getNode_loop :: "node \<Rightarrow> string \<Rightarrow> node option" where
  "getNode_loop cur [] = Some cur"
| "getNode_loop cur (b # bs) =
     (case lookup_edge (edges cur) b of
        None \<Rightarrow> None
      | Some e \<Rightarrow>
          (let splitIdx = getFirstMismatch (b # bs) (label e) in
           if splitIdx \<noteq> length (label e) then None
           else getNode_loop (next_node e) (drop splitIdx (b # bs))))"
  by pat_completeness auto
termination
  by (relation "measure (\<lambda>(cur, bPref). size cur)") (auto dest: lookup_edge_size)

definition getNode :: "trie \<Rightarrow> string \<Rightarrow> node option" where
  "getNode t pfx = getNode_loop (root t) pfx"

definition HasItem :: "trie \<Rightarrow> string \<Rightarrow> bool" where
  "HasItem t key = (case getNode t key of None \<Rightarrow> False | Some n \<Rightarrow> isLeaf n)"

definition GetItem :: "trie \<Rightarrow> string \<Rightarrow> panic + bytes" where
  "GetItem t key = (case getNode t key of None \<Rightarrow> Inl NilDereference | Some n \<Rightarrow> Inr (data n))"

section \<open>\<^verbatim>\<open>InsertItem\<close>\<close>

text \<open>
  One iteration of the loop of \<^verbatim>\<open>InsertItem\<close> at node \<open>cur\<close> with the remaining key
  \<open>bPref\<close>.  \<open>currEdge1\<close> is the edge after the split, \<open>currEdge2\<close> the edge after its target
  was marked as a leaf; the loop goes on at the target with \<open>bPref[splitIdx:]\<close>.
  \<open>has_edge\<close> only serves the termination proof.
\<close>

definition has_edge :: "node \<Rightarrow> string \<Rightarrow> nat" where
  "has_edge cur bPref = (case bPref of [] \<Rightarrow> 0 | b # _ \<Rightarrow> (case lookup_edge (edges cur) b of None \<Rightarrow> 0 | Some _ \<Rightarrow> 1))"

function InsertItem_loop :: "node \<Rightarrow> string \<Rightarrow> bytes \<Rightarrow> node" where
  "InsertItem_loop cur [] d = cur"
| "InsertItem_loop cur (k # bs) d =
     (let bPref = k # bs; es = edge_list (edges cur) in
      case lookup_edge (edges cur) k of
        None \<Rightarrow>
          Node (isLeaf cur) (Some (AList.update k (Edge bPref (Node True None d)) es)) (data cur)
      | Some currEdge \<Rightarrow>
          (let labelLen = length (label currEdge);
               curStr = (if length bPref > labelLen then take labelLen bPref else bPref);
               splitIdx = getFirstMismatch curStr (label currEdge);
               currEdge1 =
                 (if splitIdx \<noteq> labelLen
                  then (let tail = drop splitIdx (label currEdge);
                            newNext = Node False (Some [(hd tail, Edge tail (next_node currEdge))]) None
                        in Edge (take splitIdx (label currEdge)) newNext)
                  else currEdge);
               currEdge2 =
                 (if length bPref = length (label currEdge1)
                  then Edge (label currEdge1) (Node True (edges (next_node currEdge1)) d)
                  else currEdge1)
           in Node (isLeaf cur)
                (Some (AList.update k
                   (Edge (label currEdge2)
                      (InsertItem_loop (next_node currEdge2) (drop splitIdx bPref) d)) es))
                (data cur)))"
  by pat_completeness auto
termination
proof (relation "measures [\<lambda>(cur, bPref, d). length bPref, \<lambda>(cur, bPref, d). has_edge cur bPref,
                           \<lambda>(cur, bPref, d). size cur]", goal_cases)
  case 1
  show ?case by simp
next
  case (2 cur k bs d bPref es currEdge labelLen curStr splitIdx currEdge1 currEdge2)
  have s: "splitIdx = getFirstMismatch bPref (label currEdge)"
    using 2 by (auto simp: gfm_take_label)
  have le: "splitIdx \<le> labelLen" using s 2 by (simp add: gfm_le)
  have bp: "bPref \<noteq> []" using 2 by simp
  show ?case
  proof (cases "splitIdx = 0")
    case False
    then show ?thesis using 2 by simp
  next
    case True
    note z = this
    show ?thesis
    proof (cases "labelLen = 0")
      case True
      with z 2 have "currEdge2 = currEdge" by simp
      moreover have "has_edge cur (k # bs) = 1" using 2 by (simp add: has_edge_def)
      moreover have "has_edge (next_node currEdge) (k # bs) \<le> 1"
        by (simp add: has_edge_def split: option.splits)
      ultimately show ?thesis using 2 z
        by (auto dest: lookup_edge_size)
    next
      case False
      then have ne: "label currEdge \<noteq> []" using 2 by simp
      from z s bp ne have "hd bPref \<noteq> hd (label currEdge)"
        using gfm_pos [of bPref "label currEdge"] by simp
      then have "k \<noteq> hd (label currEdge)" using 2 by simp
      moreover have "currEdge2 = Edge [] (Node False (Some [(hd (label currEdge), Edge (label currEdge) (next_node currEdge))]) None)"
        using 2 z False by simp
      moreover have "has_edge cur (k # bs) = 1" using 2 by (simp add: has_edge_def)
      ultimately show ?thesis using 2 z by (simp add: has_edge_def)
    qed
  qed
qed

definition InsertItem :: "trie \<Rightarrow> string \<Rightarrow> bytes \<Rightarrow> trie" where
  "InsertItem t key d = t\<lparr>root := InsertItem_loop (root t) key d\<rparr>"


section \<open>\<^verbatim>\<open>DeleteItem\<close>\<close>

text \<open>
  \<^verbatim>\<open>delete\<close> returns nil (\<open>Inr None\<close>) for a node its caller must unlink, and otherwise the
  node it was given, mutated in place.  The test \<^verbatim>\<open>node != t.root\<close> is the flag \<open>is_root\<close>:
  the first call is on the root and no edge leads back to it.  The slice expression
  \<^verbatim>\<open>key[len(currEdge.label):]\<close> panics when the label is longer than the key; this happens
  on the way down, before any mutation.  The \<^verbatim>\<open>range\<close> loop of the merge is a \<open>fold\<close> over
  the entries of the child's map.
\<close>

function delete :: "bool \<Rightarrow> node \<Rightarrow> string \<Rightarrow> panic + node option" where
  "delete is_root nd [] =
     (if edges nd = None \<and> \<not> is_root then Inr None
      else Inr (Some (Node False (edges nd) (data nd))))"
| "delete is_root nd (k # ks) =
     (let key = k # ks in
      case lookup_edge (edges nd) k of
        None \<Rightarrow> Inr (Some nd)
      | Some currEdge \<Rightarrow>
          if length (label currEdge) > length key then Inl SliceBoundsOutOfRange
          else
            (case delete False (next_node currEdge) (drop (length (label currEdge)) key) of
               Inl e \<Rightarrow> Inl e
             | Inr None \<Rightarrow>
                 (let es = AList.delete k (edge_list (edges nd)) in
                  if length es = 0 \<and> \<not> isLeaf nd \<and> \<not> is_root then Inr None
                  else Inr (Some (Node (isLeaf nd) (Some es) (data nd))))
             | Inr (Some deleted) \<Rightarrow>
                 if len_edges (edges deleted) = 1 \<and> \<not> isLeaf deleted
                 then (let es = AList.delete k (edge_list (edges nd));
                           es' = fold (\<lambda>(_, v) m.
                                   AList.update k (Edge (label currEdge @ label v) (next_node v)) m)
                                   (edge_list (edges deleted)) es
                       in Inr (Some (Node (isLeaf nd) (Some es') (data nd))))
                 else Inr (Some (Node (isLeaf nd)
                        (Some (AList.update k (Edge (label currEdge) deleted) (edge_list (edges nd))))
                        (data nd)))))"
  by pat_completeness auto
termination
  by (relation "measure (\<lambda>(is_root, nd, key). size nd)") (auto dest: lookup_edge_size)

definition DeleteItem :: "trie \<Rightarrow> string \<Rightarrow> panic + trie" where
  "DeleteItem t key =
     (case delete True (root t) key of
        Inl e \<Rightarrow> Inl e
      | Inr None \<Rightarrow> Inl NilDereference
      | Inr (Some r) \<Rightarrow> Inr (t\<lparr>root := r\<rparr>))"

section \<open>\<^verbatim>\<open>Set\<close>\<close>

text \<open>
  \<^verbatim>\<open>Set\<close> writes the \<^verbatim>\<open>data\<close> field of the node \<^verbatim>\<open>getNode\<close> returns, without a nil check.
  \<open>setData_loop\<close> follows the path of \<open>getNode_loop\<close> and rebuilds the nodes above the
  one it writes.
\<close>

function setData_loop :: "node \<Rightarrow> string \<Rightarrow> bytes \<Rightarrow> node option" where
  "setData_loop cur [] d = Some (Node (isLeaf cur) (edges cur) d)"
| "setData_loop cur (b # bs) d =
     (case lookup_edge (edges cur) b of
        None \<Rightarrow> None
      | Some e \<Rightarrow>
          (let splitIdx = getFirstMismatch (b # bs) (label e) in
           if splitIdx \<noteq> length (label e) then None
           else (case setData_loop (next_node e) (drop splitIdx (b # bs)) d of
                   None \<Rightarrow> None
                 | Some n' \<Rightarrow>
                     Some (Node (isLeaf cur)
                       (Some (AList.update b (Edge (label e) n') (edge_list (edges cur))))
                       (data cur)))))"
  by pat_completeness auto
termination
  by (relation "measure (\<lambda>(cur, bPref, d). size cur)") (auto dest: lookup_edge_size)

definition Set :: "trie \<Rightarrow> string \<Rightarrow> bytes \<Rightarrow> panic + trie" where
  "Set t key d =
     (case setData_loop (root t) key d of
        None \<Rightarrow> Inl NilDereference
      | Some r \<Rightarrow> Inr (t\<lparr>root := r\<rparr>))"

section \<open>\<^verbatim>\<open>Keys\<close> and \<^verbatim>\<open>startsWith\<close>\<close>

text \<open>
  \<^verbatim>\<open>Keys\<close> calls itself with the longer prefix and walks down from the root again, so its
  recursion is not structural: the model takes fuel, and \<open>None\<close> means the fuel ran out.
  A nil result slice is the empty list.
\<close>

function startsWith_loop :: "string \<Rightarrow> node \<Rightarrow> string \<Rightarrow> (node \<times> string) option" where
  "startsWith_loop pfx cur [] = Some (cur, pfx)"
| "startsWith_loop pfx cur (b # bs) =
     (case lookup_edge (edges cur) b of
        None \<Rightarrow> None
      | Some e \<Rightarrow>
          (let splitIdx = getFirstMismatch (b # bs) (label e) in
           if splitIdx \<noteq> length (label e)
           then (if splitIdx = length (b # bs)
                 then Some (next_node e, pfx @ drop splitIdx (label e))
                 else None)
           else startsWith_loop pfx (next_node e) (drop splitIdx (b # bs))))"
  by pat_completeness auto
termination
  by (relation "measure (\<lambda>(pfx, cur, bPref). size cur)") (auto dest: lookup_edge_size)

definition startsWith :: "trie \<Rightarrow> string \<Rightarrow> (node \<times> string) option" where
  "startsWith t pfx = startsWith_loop pfx (root t) pfx"

fun collect :: "string list option list \<Rightarrow> string list option" where
  "collect [] = Some []"
| "collect (None # rs) = None"
| "collect (Some ks # rs) = (case collect rs of None \<Rightarrow> None | Some ks' \<Rightarrow> Some (ks @ ks'))"

fun Keys :: "nat \<Rightarrow> trie \<Rightarrow> string \<Rightarrow> string list option" where
  "Keys 0 t pfx = None"
| "Keys (Suc fuel) t pfx =
     (case startsWith t pfx of
        None \<Rightarrow> Some []
      | Some (nd, pref) \<Rightarrow>
          (case collect (map (\<lambda>(_, e). Keys fuel t (pref @ label e)) (edge_list (edges nd))) of
             None \<Rightarrow> None
           | Some ks \<Rightarrow> Some ((if isLeaf nd then [pref] else []) @ ks)))"

section \<open>\<^verbatim>\<open>Traverse\<close>\<close>

text \<open>
  The callback may have effects of its own: it takes and returns a state of type \<open>'s\<close>.
  Its error result is \<open>None\<close> for nil.  \<^verbatim>\<open>keys\<close> lists the map's keys in iteration order
  and sorts them when the flag is set.
\<close>

type_synonym ('s, 'e) TFunc = "'s \<Rightarrow> nat \<Rightarrow> string \<Rightarrow> bytes \<Rightarrow> bool \<Rightarrow> 's \<times> bool \<times> 'e option"

definition keys :: "(char \<times> edge) list option \<Rightarrow> bool \<Rightarrow> char list" where
  "keys m srt = (let ks = map fst (edge_list m) in if srt then sort ks else ks)"

lemma lookup_edge_size':
  "lookup_edge m k = Some e \<Longrightarrow> size (next_node e) < Suc (size_option (size_list (size_prod (\<lambda>_. 0) size)) m)"
  by (cases m; cases e) (auto dest: map_of_size_edge)

lemma size_node_edges:
  "size nd = Suc (size_option (size_list (size_prod (\<lambda>_. 0) size)) (edges nd))"
  by (cases nd) simp

function traverse :: "bool \<Rightarrow> node \<Rightarrow> nat \<Rightarrow> string \<Rightarrow> ('s, 'e) TFunc \<Rightarrow> 's \<Rightarrow> panic + 's \<times> 'e option"
  and traverse_range :: "bool \<Rightarrow> (char \<times> edge) list option \<Rightarrow> char list \<Rightarrow> nat \<Rightarrow> string \<Rightarrow> ('s, 'e) TFunc \<Rightarrow> 's \<Rightarrow> panic + 's \<times> 'e option"
  where
  "traverse srt nd step path fn s =
     (case fn s step path (data nd) (isLeaf nd) of
        (s1, _, Some err) \<Rightarrow> Inr (s1, Some err)
      | (s1, False, None) \<Rightarrow> Inr (s1, None)
      | (s1, True, None) \<Rightarrow> traverse_range srt (edges nd) (keys (edges nd) srt) step path fn s1)"
| "traverse_range srt m [] step path fn s = Inr (s, None)"
| "traverse_range srt m (k # ks) step path fn s =
     (case lookup_edge m k of
        None \<Rightarrow> Inl NilDereference
      | Some e \<Rightarrow>
          (case traverse srt (next_node e) (step + 1) (path @ label e) fn s of
             Inl p \<Rightarrow> Inl p
           | Inr (s1, Some err) \<Rightarrow> Inr (s1, Some err)
           | Inr (s1, None) \<Rightarrow> traverse_range srt m ks step path fn s1))"
  by pat_completeness auto
termination
  by (relation "measures [\<lambda>x. case x of Inl (srt, nd, r) \<Rightarrow> 2 * size nd
                                           | Inr (srt, m, r) \<Rightarrow> Suc (2 * size_option (size_list (size_prod (\<lambda>_. 0) size)) m),
                          \<lambda>x. case x of Inl _ \<Rightarrow> 0 | Inr (srt, m, ks, r) \<Rightarrow> length ks]")
     (auto dest: lookup_edge_size' simp: size_node_edges)

definition Traverse :: "trie \<Rightarrow> ('s, 'e) TFunc \<Rightarrow> 's \<Rightarrow> panic + 's \<times> 'e option" where
  "Traverse t fn s = traverse (sorted_flag t) (root t) 0 [] fn s"
section \<open>Reachable states\<close>

text \<open>
  \<open>same_node\<close> relates two values that stand for the same Go heap: the same fields and the
  same maps, whatever the order of the association lists.  \<open>invar\<close> is the well-formedness
  of a node: map keys are distinct, and every edge is stored under the first byte of
  its non-empty label.  A state is reachable when the public operations lead to it from
  \<^verbatim>\<open>NewTrie\<close> without a panic; since a Go map has no order, every reordering of a
  reachable state is reachable too.
\<close>


lemma set_size_edge:
  "(k, e) \<in> set es \<Longrightarrow> size (next_node e) < size_list (size_prod (\<lambda>_. 0) size) es"
  by (induction es) (auto, cases e, simp)

function same_node :: "node \<Rightarrow> node \<Rightarrow> bool" where
  "same_node (Node lf1 eo1 d1) (Node lf2 eo2 d2) =
     (lf1 = lf2 \<and> d1 = d2 \<and>
      (case (eo1, eo2) of
         (None, None) \<Rightarrow> True
       | (Some es1, Some es2) \<Rightarrow>
           distinct (map fst es1) \<and> distinct (map fst es2) \<and> length es1 = length es2 \<and>
           (\<forall>(k, e1) \<in> set es1.
              case map_of es2 k of
                None \<Rightarrow> False
              | Some e2 \<Rightarrow> label e1 = label e2 \<and> same_node (next_node e1) (next_node e2))
       | _ \<Rightarrow> False))"
  by pat_completeness auto
termination
  by (relation "measure (\<lambda>(n1, n2). size n1)") (auto dest: set_size_edge)

function invar :: "node \<Rightarrow> bool" where
  "invar (Node lf eo d) =
     (case eo of
        None \<Rightarrow> True
      | Some es \<Rightarrow>
          distinct (map fst es) \<and>
          (\<forall>(k, e) \<in> set es. label e \<noteq> [] \<and> hd (label e) = k \<and> invar (next_node e)))"
  by pat_completeness auto
termination
  by (relation "measure size") (auto dest: set_size_edge)

inductive reachable :: "trie \<Rightarrow> bool" where
  reach_new: "reachable NewTrie"
| reach_sorted: "reachable t \<Longrightarrow> reachable (Sorted t b)"
| reach_insert: "reachable t \<Longrightarrow> reachable (InsertItem t key d)"
| reach_delete: "reachable t \<Longrightarrow> DeleteItem t key = Inr t' \<Longrightarrow> reachable t'"
| reach_set: "reachable t \<Longrightarrow> Set t key d = Inr t' \<Longrightarrow> reachable t'"
| reach_order: "reachable t \<Longrightarrow> same_node (root t) r \<Longrightarrow> reachable (t\<lparr>root := r\<rparr>)"

lemma isLeaf_InsertItem_loop: "isLeaf (InsertItem_loop cur key d) = isLeaf cur"
  by (cases key) (simp_all add: Let_def split: option.splits)

lemma isLeaf_delete:
  "delete r nd key = Inr (Some n') \<Longrightarrow> isLeaf n' \<Longrightarrow> isLeaf nd"
  by (cases key) (auto simp: Let_def split: option.splits if_splits sum.splits)

lemma isLeaf_setData_loop: "setData_loop cur key d = Some n' \<Longrightarrow> isLeaf n' = isLeaf cur"
  by (cases key) (auto simp: Let_def split: option.splits if_splits)

lemma isLeaf_same_node: "same_node n1 n2 \<Longrightarrow> isLeaf n2 = isLeaf n1"
  by (cases n1; cases n2) simp

lemma reachable_root_not_leaf: "reachable t \<Longrightarrow> \<not> isLeaf (root t)"
proof (induction rule: reachable.induct)
  case reach_new
  show ?case by (simp add: NewTrie_def)
next
  case (reach_sorted t b)
  then show ?case by (simp add: Sorted_def)
next
  case (reach_insert t key d)
  then show ?case by (simp add: InsertItem_def isLeaf_InsertItem_loop)
next
  case (reach_delete t key t')
  then show ?case
    by (auto simp: DeleteItem_def split: sum.splits option.splits dest: isLeaf_delete)
next
  case (reach_set t key d t')
  then show ?case
    by (auto simp: Set_def split: option.splits dest: isLeaf_setData_loop)
next
  case (reach_order t r)
  then show ?case by (simp add: isLeaf_same_node)
qed


text \<open>A callback that records the arguments of every call and never stops the walk.\<close>

definition record_call :: "((nat \<times> string \<times> bytes \<times> bool) list, unit) TFunc" where
  "record_call s step path d lf = (s @ [(step, path, d, lf)], True, None)"
section \<open>Stored items\<close>

text \<open>
  \<open>item n key\<close> is the value stored under \<open>key\<close> below node \<open>n\<close>: the data of the node
  that \<open>getNode_loop\<close> finds, when it is a leaf.
\<close>

definition item :: "node \<Rightarrow> string \<Rightarrow> bytes option" where
  "item n key =
     (case getNode_loop n key of
        None \<Rightarrow> None
      | Some m \<Rightarrow> if isLeaf m then Some (data m) else None)"

definition item_edge :: "edge \<Rightarrow> string \<Rightarrow> bytes option" where
  "item_edge e key =
     (if prefix (label e) key then item (next_node e) (drop (length (label e)) key) else None)"

lemma getNode_loop_Cons:
  "getNode_loop cur (b # bs) =
     (case lookup_edge (edges cur) b of
        None \<Rightarrow> None
      | Some e \<Rightarrow>
          if prefix (label e) (b # bs)
          then getNode_loop (next_node e) (drop (length (label e)) (b # bs))
          else None)"
  by (auto simp: Let_def gfm_eq_label_iff [symmetric] split: option.splits)

lemma item_Nil: "item n [] = (if isLeaf n then Some (data n) else None)"
  by (simp add: item_def)

lemma item_Cons:
  "item n (b # bs) = (case lookup_edge (edges n) b of None \<Rightarrow> None | Some e \<Rightarrow> item_edge e (b # bs))"
  unfolding item_def item_edge_def getNode_loop_Cons
  by (simp split: option.splits)

lemma item_Cons_cong: "edges n = edges m \<Longrightarrow> item n (b # bs) = item m (b # bs)"
  by (simp add: item_Cons)

lemma HasItem_item: "HasItem t key \<longleftrightarrow> item (root t) key \<noteq> None"
  by (simp add: HasItem_def getNode_def item_def split: option.splits)

lemma GetItem_item: "item (root t) key = Some d \<Longrightarrow> GetItem t key = Inr d"
  by (auto simp: GetItem_def getNode_def item_def split: option.splits if_splits)

lemma item_edge_append: "item_edge (Edge l n) (l @ r) = item n r"
  by (simp add: item_edge_def)

lemma item_edge_self: "item_edge (Edge l n) l = item n []"
  by (simp add: item_edge_def)

lemma item_edge_not_prefix: "\<not> prefix l key \<Longrightarrow> item_edge (Edge l n) key = None"
  by (simp add: item_edge_def)

lemma item_leaf: "item (Node True None d) key = (if key = [] then Some d else None)"
  by (cases key) (simp_all add: item_Nil item_Cons)

section \<open>Insertion lemmas\<close>

text \<open>
  A key and a label are related in one of three ways: the label is a prefix of the key,
  the key is a proper prefix of the label, or they part after a common prefix.  The
  loop of \<^verbatim>\<open>InsertItem\<close> walks on in the first case, marks the split node in the second
  and hangs a new leaf beside the old subtree in the third.
\<close>

lemma gfm_append_label: "getFirstMismatch (l @ r) l = length l"
  by (simp add: gfm_eq_label_iff)

lemma gfm_append_key: "getFirstMismatch q (q @ r) = length q"
  by (simp add: gfm_eq_key_iff)

lemma gfm_split: "a \<noteq> b \<Longrightarrow> getFirstMismatch (p @ b # b') (p @ a # l') = length p"
  by (simp add: getFirstMismatch_lcp lcp_append)

lemma prefix_le_eq: "prefix xs ys \<Longrightarrow> length ys \<le> length xs \<Longrightarrow> ys = xs"
  by (auto simp: prefix_def)

lemma key_label_cases:
  obtains (match) r where "key = l @ r"
  | (short) a l' where "l = key @ a # l'"
  | (split) p a b l' b' where "l = p @ a # l'" "key = p @ b # b'" "a \<noteq> b"
proof -
  define p where "p = longest_common_prefix key l"
  obtain r1 where r1: "key = p @ r1"
    using longest_common_prefix_prefix1 [of key l] by (auto simp: prefix_def p_def)
  obtain r2 where r2: "l = p @ r2"
    using longest_common_prefix_prefix2 [of key l] by (auto simp: prefix_def p_def)
  show thesis
  proof (cases r2)
    case Nil
    with r1 r2 show ?thesis using match [of r1] by simp
  next
    case (Cons a l')
    note c2 = this
    show ?thesis
    proof (cases r1)
      case Nil
      with r1 r2 c2 show ?thesis using short [of a l'] by simp
    next
      case (Cons b b')
      have "a \<noteq> b"
      proof
        assume "a = b"
        then have "prefix (p @ [a]) key" "prefix (p @ [a]) l"
          using r1 r2 c2 Cons by simp_all
        then have "prefix (p @ [a]) p" unfolding p_def by (rule longest_common_prefix_max_prefix)
        then show False by (auto dest: prefix_length_le)
      qed
      with r1 r2 c2 Cons show ?thesis using split [of p a l' b b'] by simp
    qed
  qed
qed


text \<open>The edge that one iteration of the loop of \<^verbatim>\<open>InsertItem\<close> leaves in place of \<open>currEdge\<close>.\<close>

definition ins_edge :: "edge \<Rightarrow> string \<Rightarrow> bytes \<Rightarrow> edge" where
  "ins_edge currEdge bPref d =
     (let labelLen = length (label currEdge);
          curStr = (if length bPref > labelLen then take labelLen bPref else bPref);
          splitIdx = getFirstMismatch curStr (label currEdge);
          currEdge1 =
            (if splitIdx \<noteq> labelLen
             then (let tail = drop splitIdx (label currEdge);
                       newNext = Node False (Some [(hd tail, Edge tail (next_node currEdge))]) None
                   in Edge (take splitIdx (label currEdge)) newNext)
             else currEdge);
          currEdge2 =
            (if length bPref = length (label currEdge1)
             then Edge (label currEdge1) (Node True (edges (next_node currEdge1)) d)
             else currEdge1)
      in Edge (label currEdge2) (InsertItem_loop (next_node currEdge2) (drop splitIdx bPref) d))"

lemma InsertItem_loop_None:
  "lookup_edge (edges cur) k = None \<Longrightarrow>
   InsertItem_loop cur (k # bs) d =
     Node (isLeaf cur) (Some (AList.update k (Edge (k # bs) (Node True None d)) (edge_list (edges cur)))) (data cur)"
  by simp

lemma InsertItem_loop_Some:
  "lookup_edge (edges cur) k = Some e \<Longrightarrow>
   InsertItem_loop cur (k # bs) d =
     Node (isLeaf cur) (Some (AList.update k (ins_edge e (k # bs) d) (edge_list (edges cur)))) (data cur)"
  by (simp add: ins_edge_def Let_def)

declare InsertItem_loop.simps(2) [simp del]

lemma gfm_curStr:
  "getFirstMismatch (if length l < length bPref then take (length l) bPref else bPref) l
     = getFirstMismatch bPref l"
  by (simp add: gfm_take_label)

lemma gfm_same: "getFirstMismatch l l = length l"
  by (simp add: gfm_eq_label_iff)

lemma ins_edge_eq:
  "l \<noteq> [] \<Longrightarrow> ins_edge (Edge l nx) l d = Edge l (Node True (edges nx) d)"
  by (simp add: ins_edge_def Let_def gfm_same)

lemma ins_edge_longer:
  "ins_edge (Edge l nx) (l @ c # r) d = Edge l (InsertItem_loop nx (c # r) d)"
  unfolding ins_edge_def Let_def edge.sel gfm_curStr gfm_append_label
  by simp

lemma ins_edge_short:
  "q \<noteq> [] \<Longrightarrow> ins_edge (Edge (q @ a # l') nx) q d = Edge q (Node True (Some [(a, Edge (a # l') nx)]) d)"
  unfolding ins_edge_def Let_def edge.sel gfm_curStr gfm_append_key
  by simp

lemma ins_edge_split:
  "a \<noteq> b \<Longrightarrow>
   ins_edge (Edge (p @ a # l') nx) (p @ b # b') d =
     Edge p (Node False (Some [(a, Edge (a # l') nx), (b, Edge (b # b') (Node True None d))]) None)"
  unfolding ins_edge_def Let_def edge.sel gfm_curStr
  by (simp add: gfm_split InsertItem_loop_None)


section \<open>Well-formed nodes\<close>

text \<open>
  Insertion into a well-formed node gives a well-formed node in which the key is stored
  with the new data and every other key is stored as before.
\<close>

lemma invar_None: "invar (Node lf None d)"
  by simp

lemma invarI:
  "distinct (map fst es) \<Longrightarrow>
   (\<And>k e. map_of es k = Some e \<Longrightarrow> label e \<noteq> [] \<and> hd (label e) = k \<and> invar (next_node e)) \<Longrightarrow>
   invar (Node lf (Some es) d)"
  by auto

lemma invarD:
  "invar n \<Longrightarrow> lookup_edge (edges n) k = Some e \<Longrightarrow>
   label e \<noteq> [] \<and> hd (label e) = k \<and> invar (next_node e)"
  by (cases n; cases "edges n") (auto dest!: map_of_SomeD)

lemma invar_distinct: "invar n \<Longrightarrow> distinct (map fst (edge_list (edges n)))"
  by (cases n; cases "edges n") auto

lemma invar_fields: "invar n \<Longrightarrow> invar (Node lf (edges n) d)"
  by (cases n) simp

declare invar.simps [simp del]

lemma map_of_edge_list: "map_of (edge_list eo) k = lookup_edge eo k"
  by (cases eo) simp_all

lemma invar_update:
  assumes "invar n" "label e \<noteq> []" "hd (label e) = k" "invar (next_node e)"
  shows "invar (Node lf (Some (AList.update k e (edge_list (edges n)))) d)"
proof (rule invarI)
  show "distinct (map fst (AList.update k e (edge_list (edges n))))"
    using assms(1) by (simp add: distinct_update invar_distinct)
next
  fix k' e'
  assume "map_of (AList.update k e (edge_list (edges n))) k' = Some e'"
  then have "(k' = k \<and> e' = e) \<or> lookup_edge (edges n) k' = Some e'"
    by (auto simp: update_conv' map_of_edge_list split: if_splits)
  then show "label e' \<noteq> [] \<and> hd (label e') = k' \<and> invar (next_node e')"
    using assms invarD by blast
qed


lemma ins_edge_correct:
  assumes IH: "\<And>cur' key'. length key' < length key \<Longrightarrow> invar cur' \<Longrightarrow> key' \<noteq> [] \<Longrightarrow>
      invar (InsertItem_loop cur' key' d) \<and>
      (\<forall>k2. item (InsertItem_loop cur' key' d) k2 = (if k2 = key' then Some d else item cur' k2))"
    and l: "l \<noteq> []" "hd l = hd key" and key: "key \<noteq> []" and nx: "invar nx"
  shows "label (ins_edge (Edge l nx) key d) \<noteq> [] \<and>
         hd (label (ins_edge (Edge l nx) key d)) = hd key \<and>
         invar (next_node (ins_edge (Edge l nx) key d)) \<and>
         (\<forall>k2. item_edge (ins_edge (Edge l nx) key d) k2 =
                 (if k2 = key then Some d else item_edge (Edge l nx) k2))"
proof (cases rule: key_label_cases [of key l])
  case (match r)
  show ?thesis
  proof (cases r)
    case Nil
    with match have kl: "key = l" by simp
    have "item_edge (Edge l (Node True (edges nx) d)) k2 = (if k2 = l then Some d else item_edge (Edge l nx) k2)" for k2
    proof (cases "prefix l k2")
      case True
      then obtain r2 where "k2 = l @ r2" by (auto simp: prefix_def)
      then show ?thesis
        by (cases r2) (simp_all add: item_edge_append item_edge_self item_Nil item_Cons_cong [of "Node True (edges nx) d" nx])
    next
      case False
      then show ?thesis by (auto simp: item_edge_not_prefix)
    qed
    then show ?thesis using l nx kl by (simp add: ins_edge_eq invar_fields)
  next
    case (Cons c r')
    with match have kl: "key = l @ c # r'" by simp
    have "length (c # r') < length key" using kl l by simp
    from IH [OF this nx] have
      inv: "invar (InsertItem_loop nx (c # r') d)" and
      it: "\<And>k2. item (InsertItem_loop nx (c # r') d) k2 = (if k2 = c # r' then Some d else item nx k2)"
      by simp_all
    have "item_edge (Edge l (InsertItem_loop nx (c # r') d)) k2 =
            (if k2 = l @ c # r' then Some d else item_edge (Edge l nx) k2)" for k2
    proof (cases "prefix l k2")
      case True
      then obtain r2 where "k2 = l @ r2" by (auto simp: prefix_def)
      then show ?thesis by (simp add: item_edge_append it)
    next
      case False
      then show ?thesis by (auto simp: item_edge_not_prefix)
    qed
    then show ?thesis using l inv kl by (simp add: ins_edge_longer)
  qed
next
  case (short a l')
  have "item_edge (Edge key (Node True (Some [(a, Edge (a # l') nx)]) d)) k2 =
          (if k2 = key then Some d else item_edge (Edge (key @ a # l') nx) k2)" for k2
  proof (cases "prefix key k2")
    case True
    then obtain r2 where "k2 = key @ r2" by (auto simp: prefix_def)
    then show ?thesis
      by (cases r2) (auto simp: item_edge_append item_edge_self item_Nil item_Cons item_edge_def)
  next
    case False
    then have "\<not> prefix (key @ a # l') k2" by (auto dest: append_prefixD)
    with False show ?thesis by (auto simp: item_edge_not_prefix)
  qed
  moreover have "invar (Node True (Some [(a, Edge (a # l') nx)]) d)"
    using nx by (simp add: invar.simps)
  ultimately show ?thesis using key short by (simp add: ins_edge_short)
next
  case (split p a b l' b')
  from split l key have p: "p \<noteq> []" by (cases p) auto
  have "item_edge (Edge p (Node False (Some [(a, Edge (a # l') nx), (b, Edge (b # b') (Node True None d))]) None)) k2 =
          (if k2 = p @ b # b' then Some d else item_edge (Edge (p @ a # l') nx) k2)" for k2
  proof (cases "prefix p k2")
    case True
    then obtain r2 where "k2 = p @ r2" by (auto simp: prefix_def)
    then show ?thesis using \<open>a \<noteq> b\<close>
      by (cases r2) (auto simp: item_edge_append item_edge_self item_Nil item_Cons item_edge_def item_leaf dest: prefix_le_eq)
  next
    case False
    then have "\<not> prefix (p @ a # l') k2" by (auto dest: append_prefixD)
    with False show ?thesis by (auto simp: item_edge_not_prefix)
  qed
  moreover have "invar (Node False (Some [(a, Edge (a # l') nx), (b, Edge (b # b') (Node True None d))]) None)"
    using nx \<open>a \<noteq> b\<close> by (simp add: invar.simps)
  ultimately show ?thesis using p split by (simp add: ins_edge_split)
qed


lemma item_update_node:
  "item (Node (isLeaf n) (Some (AList.update k e (edge_list (edges n)))) (data n)) k2 =
     (case k2 of
        [] \<Rightarrow> item n []
      | c # cs \<Rightarrow> if c = k then item_edge e k2 else item n k2)"
  by (cases k2) (simp_all add: item_Nil item_Cons update_conv' map_of_edge_list)

lemma InsertItem_loop_correct:
  "invar cur \<Longrightarrow> key \<noteq> [] \<Longrightarrow>
   invar (InsertItem_loop cur key d) \<and>
   (\<forall>k2. item (InsertItem_loop cur key d) k2 = (if k2 = key then Some d else item cur k2))"
proof (induction key arbitrary: cur rule: length_induct)
  case (1 key)
  then obtain k bs where key: "key = k # bs" by (cases key) auto
  note inv = \<open>invar cur\<close>
  show ?case
  proof (cases "lookup_edge (edges cur) k")
    case None
    let ?e = "Edge key (Node True None d)"
    have eq: "InsertItem_loop cur key d =
        Node (isLeaf cur) (Some (AList.update k ?e (edge_list (edges cur)))) (data cur)"
      using None key by (simp add: InsertItem_loop_None)
    have "invar (InsertItem_loop cur key d)"
      unfolding eq using inv key by (intro invar_update) (simp_all add: invar_None)
    moreover have "item (InsertItem_loop cur key d) k2 = (if k2 = key then Some d else item cur k2)" for k2
    proof (cases k2)
      case Nil
      then show ?thesis unfolding eq using key by (simp add: item_update_node)
    next
      case (Cons c cs)
      show ?thesis
      proof (cases "c = k")
        case True
        have "item_edge ?e k2 = (if k2 = key then Some d else None)"
          by (auto simp: item_edge_def item_leaf dest: prefix_le_eq)
        moreover have "item cur k2 = None" using None True Cons by (simp add: item_Cons)
        ultimately show ?thesis unfolding eq using True Cons by (simp add: item_update_node)
      next
        case False
        then show ?thesis unfolding eq using Cons key by (auto simp: item_update_node)
      qed
    qed
    ultimately show ?thesis by blast
  next
    case (Some e)
    obtain l nx where e: "e = Edge l nx" by (cases e)
    from invarD [OF inv Some] e have l: "l \<noteq> []" "hd l = hd key" and nx: "invar nx"
      using key by simp_all
    let ?e = "ins_edge (Edge l nx) key d"
    have IH: "\<And>cur' key'. length key' < length key \<Longrightarrow> invar cur' \<Longrightarrow> key' \<noteq> [] \<Longrightarrow>
      invar (InsertItem_loop cur' key' d) \<and>
      (\<forall>k2. item (InsertItem_loop cur' key' d) k2 = (if k2 = key' then Some d else item cur' k2))"
      using "1.IH" by blast
    have key_ne: "key \<noteq> []" using key by simp
    note E = ins_edge_correct [of key d l nx, OF IH l key_ne nx]
    have eq: "InsertItem_loop cur key d =
        Node (isLeaf cur) (Some (AList.update k ?e (edge_list (edges cur)))) (data cur)"
      using Some key e by (simp add: InsertItem_loop_Some)
    have "invar (InsertItem_loop cur key d)"
      unfolding eq using inv E key by (intro invar_update) simp_all
    moreover have "item (InsertItem_loop cur key d) k2 = (if k2 = key then Some d else item cur k2)" for k2
    proof (cases k2)
      case Nil
      then show ?thesis unfolding eq using key by (simp add: item_update_node)
    next
      case (Cons c cs)
      show ?thesis
      proof (cases "c = k")
        case True
        have "item cur k2 = item_edge (Edge l nx) k2" using Some True Cons e by (simp add: item_Cons)
        then show ?thesis unfolding eq using True Cons E by (simp add: item_update_node)
      next
        case False
        then show ?thesis unfolding eq using Cons key by (auto simp: item_update_node)
      qed
    qed
    ultimately show ?thesis by blast
  qed
qed
section \<open>Deletion lemmas\<close>

text \<open>
  \<open>delete\<close> keeps nodes well formed whenever it returns.  On a key that is stored it
  returns without a panic, and the node it returns (or unlinks) stores the other keys
  as before.
\<close>

lemma delete_Cons_None:
  "lookup_edge (edges nd) k = None \<Longrightarrow> delete r nd (k # ks) = Inr (Some nd)"
  by simp

lemma len_edges_1: "len_edges eo = 1 \<Longrightarrow> \<exists>kv v. eo = Some [(kv, v)]"
  by (cases eo) (auto simp: length_Suc_conv)

lemma delete_Cons_Some:
  "lookup_edge (edges nd) k = Some e \<Longrightarrow>
   delete r nd (k # ks) =
     (if length (label e) > length (k # ks) then Inl SliceBoundsOutOfRange
      else
        (case delete False (next_node e) (drop (length (label e)) (k # ks)) of
           Inl p \<Rightarrow> Inl p
         | Inr None \<Rightarrow>
             if AList.delete k (edge_list (edges nd)) = [] \<and> \<not> isLeaf nd \<and> \<not> r then Inr None
             else Inr (Some (Node (isLeaf nd) (Some (AList.delete k (edge_list (edges nd)))) (data nd)))
         | Inr (Some deleted) \<Rightarrow>
             (case (edges deleted, isLeaf deleted) of
                (Some [(kv, v)], False) \<Rightarrow>
                  Inr (Some (Node (isLeaf nd)
                    (Some (AList.update k (Edge (label e @ label v) (next_node v))
                       (AList.delete k (edge_list (edges nd))))) (data nd)))
              | _ \<Rightarrow>
                  Inr (Some (Node (isLeaf nd)
                    (Some (AList.update k (Edge (label e) deleted) (edge_list (edges nd)))) (data nd))))))"
  by (auto simp: Let_def split: sum.splits option.splits list.splits bool.splits dest!: len_edges_1)

declare delete.simps(2) [simp del]

text \<open>
  The call on the root never returns nil, so \<^verbatim>\<open>DeleteItem\<close> never assigns nil to
  \<^verbatim>\<open>t.root\<close>; the branch of \<open>DeleteItem\<close> for that result is never taken.
\<close>

lemma delete_root_not_nil: "delete True nd key \<noteq> Inr None"
proof (cases key)
  case Nil
  then show ?thesis by simp
next
  case (Cons k ks)
  show ?thesis
  proof (cases "lookup_edge (edges nd) k")
    case None
    then show ?thesis using Cons by (simp add: delete_Cons_None)
  next
    case (Some e)
    show ?thesis unfolding Cons delete_Cons_Some [OF Some]
      by (simp split: sum.splits option.splits list.splits bool.splits prod.splits)
  qed
qed

lemma invar_delete:
  assumes "invar n"
  shows "invar (Node lf (Some (AList.delete k (edge_list (edges n)))) d)"
proof (rule invarI)
  show "distinct (map fst (AList.delete k (edge_list (edges n))))"
    using assms by (simp add: distinct_delete invar_distinct)
next
  fix k' e'
  assume "map_of (AList.delete k (edge_list (edges n))) k' = Some e'"
  then have "lookup_edge (edges n) k' = Some e'"
    by (auto simp: delete_conv' map_of_edge_list split: if_splits)
  then show "label e' \<noteq> [] \<and> hd (label e') = k' \<and> invar (next_node e')"
    using assms invarD by blast
qed

lemma delete_invar:
  "invar nd \<Longrightarrow> delete r nd key = Inr (Some n') \<Longrightarrow> invar n'"
proof (induction r nd key arbitrary: n' rule: delete.induct)
  case (1 is_root nd)
  then have "n' = Node False (edges nd) (data nd)" by (auto split: if_splits)
  with 1 show ?case by (simp add: invar_fields)
next
  case (2 is_root nd k ks)
  show ?case
  proof (cases "lookup_edge (edges nd) k")
    case None
    with 2 show ?thesis by (simp add: delete_Cons_None)
  next
    case (Some e)
    note look = Some
    note e = invarD [OF "2.prems"(1) Some]
    from "2.prems"(2) Some have le: "\<not> length (label e) > length (k # ks)"
      by (auto simp: delete_Cons_Some split: if_splits)
    note eq = "2.prems"(2) [unfolded delete_Cons_Some [OF Some]]
    show ?thesis
    proof (cases "delete False (next_node e) (drop (length (label e)) (k # ks))")
      case (Inl p)
      with eq le show ?thesis by simp
    next
      case (Inr res)
      show ?thesis
      proof (cases res)
        case None
        with eq le Inr show ?thesis
          using invar_delete [OF "2.prems"(1)] by (auto split: if_splits)
      next
        case (Some deleted)
        have del: "invar deleted"
          using "2.IH" [OF refl look le] e Inr Some by simp
        show ?thesis
        proof (cases "\<exists>kv v. edges deleted = Some [(kv, v)] \<and> \<not> isLeaf deleted")
          case True
          then obtain kv v where v: "edges deleted = Some [(kv, v)]" "\<not> isLeaf deleted" by blast
          then have "lookup_edge (edges deleted) kv = Some v" by simp
          from invarD [OF del this] have v': "label v \<noteq> []" "invar (next_node v)" by simp_all
          have n': "n' = Node (isLeaf nd)
                    (Some (AList.update k (Edge (label e @ label v) (next_node v))
                       (AList.delete k (edge_list (edges nd))))) (data nd)"
            using eq le Inr Some v by simp
          have "invar (Node (isLeaf nd) (Some (AList.update k (Edge (label e @ label v) (next_node v))
                  (edge_list (edges (Node (isLeaf nd) (Some (AList.delete k (edge_list (edges nd)))) (data nd)))))) (data nd))"
            using e v' by (intro invar_update invar_delete "2.prems"(1)) simp_all
          then show ?thesis using n' by simp
        next
          case False
          then have n': "n' = Node (isLeaf nd)
                    (Some (AList.update k (Edge (label e) deleted) (edge_list (edges nd)))) (data nd)"
            using eq le Inr Some
            by (auto split: option.splits list.splits bool.splits prod.splits)
          show ?thesis unfolding n' using e del by (intro invar_update "2.prems"(1)) simp_all
        qed
      qed
    qed
  qed
qed


lemma item_node_upd:
  assumes "\<And>c. c \<noteq> k \<Longrightarrow> map_of es' c = lookup_edge (edges nd) c"
  shows "item (Node (isLeaf nd) (Some es') (data nd)) k2 =
     (case k2 of
        [] \<Rightarrow> item nd []
      | c # cs \<Rightarrow>
          if c = k then (case map_of es' k of None \<Rightarrow> None | Some E \<Rightarrow> item_edge E k2)
          else item nd k2)"
  using assms by (cases k2) (auto simp: item_Nil item_Cons)

lemma item_single_edge:
  assumes "invar n" "edges n = Some [(kv, v)]" "\<not> isLeaf n"
  shows "item n k2 = item_edge v k2"
proof (cases k2)
  case Nil
  have "lookup_edge (edges n) kv = Some v" using assms by simp
  from invarD [OF assms(1) this] have "label v \<noteq> []" by simp
  then show ?thesis using assms Nil by (simp add: item_Nil item_edge_def)
next
  case (Cons c cs)
  have "lookup_edge (edges n) kv = Some v" using assms by simp
  from invarD [OF assms(1) this] have "label v \<noteq> []" "hd (label v) = kv" by simp_all
  then have "c \<noteq> kv \<Longrightarrow> \<not> prefix (label v) (c # cs)"
    by (cases "label v") auto
  then show ?thesis using assms Cons by (auto simp: item_Cons item_edge_def)
qed

lemma item_edge_merge:
  assumes "invar n" "edges n = Some [(kv, v)]" "\<not> isLeaf n"
  shows "item_edge (Edge (l @ label v) (next_node v)) k2 = item_edge (Edge l n) k2"
proof (cases "prefix l k2")
  case True
  then obtain r where r: "k2 = l @ r" by (auto simp: prefix_def)
  have "item_edge (Edge l n) k2 = item_edge v r"
    using r assms by (simp add: item_edge_append item_single_edge)
  also have "\<dots> = item_edge (Edge (l @ label v) (next_node v)) k2"
    using r by (simp add: item_edge_def)
  finally show ?thesis by simp
next
  case False
  then have "\<not> prefix (l @ label v) k2" by (auto dest: append_prefixD)
  with False show ?thesis by (simp add: item_edge_not_prefix)
qed

lemma delete_correct:
  "invar nd \<Longrightarrow> item nd key \<noteq> None \<Longrightarrow>
   (\<exists>res. delete r nd key = Inr res \<and>
      (case res of
         None \<Rightarrow> \<not> r \<and> (\<forall>k2. k2 \<noteq> key \<longrightarrow> item nd k2 = None)
       | Some n' \<Rightarrow> \<forall>k2. item n' k2 = (if k2 = key then None else item nd k2)))"
proof (induction key arbitrary: r nd rule: length_induct)
  case (1 key)
  note inv = \<open>invar nd\<close>
  show ?case
  proof (cases key)
    case Nil
    show ?thesis
    proof (cases "edges nd = None \<and> \<not> r")
      case True
      have "item nd k2 = None" if "k2 \<noteq> []" for k2
        using that True by (cases k2) (simp_all add: item_Cons)
      then show ?thesis using Nil True by simp
    next
      case False
      have "item (Node False (edges nd) (data nd)) k2 = (if k2 = [] then None else item nd k2)" for k2
        by (cases k2) (simp_all add: item_Nil item_Cons)
      then show ?thesis using Nil False by auto
    qed
  next
    case (Cons k ks)
    from "1.prems"(2) Cons obtain e where look: "lookup_edge (edges nd) k = Some e"
      by (auto simp: item_Cons split: option.splits)
    obtain l nx where e: "e = Edge l nx" by (cases e)
    from invarD [OF inv look] e have l: "l \<noteq> []" "hd l = k" and nx: "invar nx" by simp_all
    from "1.prems"(2) Cons look e have pre: "prefix l key" and it: "item nx (drop (length l) key) \<noteq> None"
      by (auto simp: item_Cons item_edge_def split: if_splits)
    then obtain rest where rest: "key = l @ rest" by (auto simp: prefix_def)
    have le: "\<not> length (label e) > length (k # ks)" using rest Cons e by simp
    have short: "length rest < length key" using rest l by simp
    have it': "item nx rest \<noteq> None" using it rest by simp
    from "1.IH" short have
      "invar nx \<longrightarrow> item nx rest \<noteq> None \<longrightarrow>
        (\<exists>res. delete False nx rest = Inr res \<and>
          (case res of
             None \<Rightarrow> \<not> False \<and> (\<forall>k2. k2 \<noteq> rest \<longrightarrow> item nx k2 = None)
           | Some n' \<Rightarrow> \<forall>k2. item n' k2 = (if k2 = rest then None else item nx k2)))"
      by blast
    with nx it' obtain res where
      res: "delete False nx rest = Inr res" and
      spec: "case res of
         None \<Rightarrow> \<not> False \<and> (\<forall>k2. k2 \<noteq> rest \<longrightarrow> item nx k2 = None)
       | Some n' \<Rightarrow> \<forall>k2. item n' k2 = (if k2 = rest then None else item nx k2)"
      by blast
    have old: "item nd (k # cs) = item_edge (Edge l nx) (k # cs)" for cs
      using look e by (simp add: item_Cons)
    have key_edge: "item_edge (Edge l x) k2 = (if prefix l k2 then item x (drop (length l) k2) else None)" for x k2
      by (simp add: item_edge_def)
    have drop_eq: "prefix l k2 \<Longrightarrow> drop (length l) k2 = rest \<longleftrightarrow> k2 = key" for k2
      using rest by (auto simp: prefix_def)
    note eq = delete_Cons_Some [OF look, of r ks, folded Cons]
    show ?thesis
    proof (cases res)
      case None
      from spec None have gone: "item nx k2 = None" if "k2 \<noteq> rest" for k2 using that by simp
      have edge_gone: "item_edge (Edge l nx) k2 = None" if "k2 \<noteq> key" for k2
        using that gone drop_eq by (auto simp: key_edge)
      let ?es = "AList.delete k (edge_list (edges nd))"
      have other: "\<And>c. c \<noteq> k \<Longrightarrow> map_of ?es c = lookup_edge (edges nd) c"
        by (simp add: delete_conv' map_of_edge_list)
      have mk: "map_of ?es k = None" by (simp add: delete_conv')
      show ?thesis
      proof (cases "?es = [] \<and> \<not> isLeaf nd \<and> \<not> r")
        case True
        have "item nd k2 = None" if "k2 \<noteq> key" for k2
        proof (cases k2)
          case Nil
          then show ?thesis using True by (simp add: item_Nil)
        next
          case (Cons c cs)
          show ?thesis
          proof (cases "c = k")
            case True
            then show ?thesis using old edge_gone that Cons by simp
          next
            case False
            with other [OF False] True show ?thesis using Cons by (simp add: item_Cons)
          qed
        qed
        then show ?thesis using eq le res None True rest e Cons by simp
      next
        case False
        have "item (Node (isLeaf nd) (Some ?es) (data nd)) k2 = (if k2 = key then None else item nd k2)" for k2
          using item_node_upd [of k ?es nd k2, OF other] mk old edge_gone Cons
          by (cases k2) auto
        then show ?thesis using eq le res None False rest e Cons by auto
      qed
    next
      case (Some deleted)
      from spec Some have del: "item deleted k2 = (if k2 = rest then None else item nx k2)" for k2
        by simp
      have dinv: "invar deleted" using delete_invar [OF nx] res Some by simp
      have edge_del: "item_edge (Edge l deleted) k2 = (if k2 = key then None else item_edge (Edge l nx) k2)" for k2
        using del drop_eq by (auto simp: key_edge)
      show ?thesis
      proof (cases "\<exists>kv v. edges deleted = Some [(kv, v)] \<and> \<not> isLeaf deleted")
        case True
        then obtain kv v where v: "edges deleted = Some [(kv, v)]" "\<not> isLeaf deleted" by blast
        let ?E = "Edge (l @ label v) (next_node v)"
        let ?es = "AList.update k ?E (AList.delete k (edge_list (edges nd)))"
        have other: "\<And>c. c \<noteq> k \<Longrightarrow> map_of ?es c = lookup_edge (edges nd) c"
          by (simp add: update_conv' delete_conv' map_of_edge_list)
        have mk: "map_of ?es k = Some ?E" by (simp add: update_conv')
        have "item (Node (isLeaf nd) (Some ?es) (data nd)) k2 = (if k2 = key then None else item nd k2)" for k2
          using item_node_upd [of k ?es nd k2, OF other] mk old edge_del Cons
            item_edge_merge [OF dinv v, of l]
          by (cases k2) auto
        then show ?thesis using eq le res Some v rest e Cons by auto
      next
        case False
        let ?E = "Edge l deleted"
        let ?es = "AList.update k ?E (edge_list (edges nd))"
        have other: "\<And>c. c \<noteq> k \<Longrightarrow> map_of ?es c = lookup_edge (edges nd) c"
          by (simp add: update_conv' map_of_edge_list)
        have mk: "map_of ?es k = Some ?E" by (simp add: update_conv')
        have "item (Node (isLeaf nd) (Some ?es) (data nd)) k2 = (if k2 = key then None else item nd k2)" for k2
          using item_node_upd [of k ?es nd k2, OF other] mk old edge_del Cons
          by (cases k2) auto
        moreover have "delete r nd key = Inr (Some (Node (isLeaf nd) (Some ?es) (data nd)))"
          using eq le res Some False rest e Cons
          by (auto split: option.splits list.splits bool.splits prod.splits)
        ultimately show ?thesis by auto
      qed
    qed
  qed
qed
section \<open>\<^verbatim>\<open>Set\<close> lemmas\<close>

text \<open>\<open>look n key\<close> is what a caller can see of the node at \<open>key\<close>: its leaf flag and its data.\<close>

definition look :: "node \<Rightarrow> string \<Rightarrow> (bool \<times> bytes) option" where
  "look n key = map_option (\<lambda>m. (isLeaf m, data m)) (getNode_loop n key)"

lemma HasItem_look:
  "HasItem t key = (case look (root t) key of Some (lf, _) \<Rightarrow> lf | None \<Rightarrow> False)"
  by (simp add: HasItem_def getNode_def look_def split: option.splits)

lemma GetItem_look:
  "GetItem t key = (case look (root t) key of Some (_, d) \<Rightarrow> Inr d | None \<Rightarrow> Inl NilDereference)"
  by (simp add: GetItem_def getNode_def look_def split: option.splits)

lemma look_Nil: "look n [] = Some (isLeaf n, data n)"
  by (simp add: look_def)

lemma look_Cons:
  "look n (b # bs) =
     (case lookup_edge (edges n) b of
        None \<Rightarrow> None
      | Some e \<Rightarrow> if prefix (label e) (b # bs) then look (next_node e) (drop (length (label e)) (b # bs)) else None)"
  unfolding look_def getNode_loop_Cons by (simp split: option.splits)

lemma setData_loop_Cons:
  "setData_loop cur (b # bs) d =
     (case lookup_edge (edges cur) b of
        None \<Rightarrow> None
      | Some e \<Rightarrow>
          if prefix (label e) (b # bs)
          then (case setData_loop (next_node e) (drop (length (label e)) (b # bs)) d of
                  None \<Rightarrow> None
                | Some n' \<Rightarrow>
                    Some (Node (isLeaf cur)
                      (Some (AList.update b (Edge (label e) n') (edge_list (edges cur)))) (data cur)))
          else None)"
  by (auto simp: Let_def gfm_eq_label_iff [symmetric] split: option.splits)

declare setData_loop.simps(2) [simp del]
declare getNode_loop.simps(2) [simp del]

lemma setData_loop_None_iff:
  "setData_loop cur key d = None \<longleftrightarrow> getNode_loop cur key = None"
proof (induction cur key rule: getNode_loop.induct)
  case (1 cur)
  show ?case by simp
next
  case (2 cur b bs)
  show ?case
  proof (cases "lookup_edge (edges cur) b")
    case None
    then show ?thesis by (simp add: setData_loop_Cons getNode_loop_Cons)
  next
    case (Some e)
    show ?thesis
    proof (cases "prefix (label e) (b # bs)")
      case True
      then have "getFirstMismatch (b # bs) (label e) = length (label e)"
        by (simp add: gfm_eq_label_iff)
      from "2.IH" [OF Some refl] this True Some show ?thesis
        by (auto simp: setData_loop_Cons getNode_loop_Cons split: option.splits)
    next
      case False
      with Some show ?thesis by (simp add: setData_loop_Cons getNode_loop_Cons)
    qed
  qed
qed

lemma setData_loop_look:
  "setData_loop cur key d = Some n' \<Longrightarrow>
   look n' k2 = (if k2 = key then map_option (\<lambda>(lf, _). (lf, d)) (look cur k2) else look cur k2)"
proof (induction cur key arbitrary: n' k2 rule: getNode_loop.induct)
  case (1 cur)
  then have n': "n' = Node (isLeaf cur) (edges cur) d" by simp
  show ?case unfolding n' by (cases k2) (simp_all add: look_Nil look_Cons)
next
  case (2 cur b bs)
  from "2.prems" obtain e where e: "lookup_edge (edges cur) b = Some e"
    by (auto simp: setData_loop_Cons split: option.splits)
  from "2.prems" e have pre: "prefix (label e) (b # bs)"
    by (auto simp: setData_loop_Cons split: if_splits)
  then have gfm: "getFirstMismatch (b # bs) (label e) = length (label e)"
    by (simp add: gfm_eq_label_iff)
  from pre obtain rest where rest: "b # bs = label e @ rest" by (auto simp: prefix_def)
  from "2.prems" e pre obtain m where
    m: "setData_loop (next_node e) (drop (length (label e)) (b # bs)) d = Some m" and
    n': "n' = Node (isLeaf cur) (Some (AList.update b (Edge (label e) m) (edge_list (edges cur)))) (data cur)"
    by (auto simp: setData_loop_Cons split: option.splits)
  have IH: "look m k = (if k = rest then map_option (\<lambda>(lf, _). (lf, d)) (look (next_node e) k)
                         else look (next_node e) k)" for k
    using "2.IH" [OF e refl, of m k] gfm m rest by simp
  show ?case
  proof (cases k2)
    case Nil
    then show ?thesis unfolding n' by (simp add: look_Nil)
  next
    case (Cons c cs)
    show ?thesis
    proof (cases "c = b")
      case True
      show ?thesis
      proof (cases "prefix (label e) k2")
        case True
        then obtain r2 where r2: "k2 = label e @ r2" by (auto simp: prefix_def)
        have eqv: "k2 = b # bs \<longleftrightarrow> r2 = rest" using r2 rest by simp
        have d2: "drop (length (label e)) (b # cs) = r2"
          using r2 Cons \<open>c = b\<close> by (metis append_eq_conv_conj)
        have p2: "prefix (label e) (b # cs)" using True Cons \<open>c = b\<close> by simp
        have "look n' (c # cs) = look m r2"
          unfolding n' using \<open>c = b\<close> p2 by (simp add: look_Cons update_conv' d2)
        moreover have "look cur (c # cs) = look (next_node e) r2"
          using \<open>c = b\<close> e p2 by (simp add: look_Cons d2)
        ultimately show ?thesis using IH [of r2] eqv Cons by simp
      next
        case False
        then have "k2 \<noteq> b # bs" using pre by auto
        then show ?thesis unfolding n' using Cons \<open>c = b\<close> e False
          by (simp add: look_Cons update_conv')
      qed
    next
      case False
      then show ?thesis unfolding n' using Cons
        by (auto simp: look_Cons update_conv' map_of_edge_list)
    qed
  qed
qed

lemma setData_loop_invar:
  "setData_loop cur key d = Some n' \<Longrightarrow> invar cur \<Longrightarrow> invar n'"
proof (induction cur key arbitrary: n' rule: getNode_loop.induct)
  case (1 cur)
  then show ?case by (auto simp: invar_fields)
next
  case (2 cur b bs)
  from "2.prems" obtain e where e: "lookup_edge (edges cur) b = Some e"
    by (auto simp: setData_loop_Cons split: option.splits)
  from "2.prems" e have pre: "prefix (label e) (b # bs)"
    by (auto simp: setData_loop_Cons split: if_splits)
  then have gfm: "getFirstMismatch (b # bs) (label e) = length (label e)"
    by (simp add: gfm_eq_label_iff)
  from "2.prems" e pre obtain m where
    m: "setData_loop (next_node e) (drop (length (label e)) (b # bs)) d = Some m" and
    n': "n' = Node (isLeaf cur) (Some (AList.update b (Edge (label e) m) (edge_list (edges cur)))) (data cur)"
    by (auto simp: setData_loop_Cons split: option.splits)
  note ed = invarD [OF "2.prems"(2) e]
  have "invar m" using "2.IH" [OF e refl, of m] gfm m ed by simp
  then show ?case unfolding n' using ed by (intro invar_update "2.prems"(2)) simp_all
qed

text \<open>
  On a key whose node exists, \<^verbatim>\<open>Set\<close> returns and writes that node's data only.
\<close>

lemma Set_found_node:
  assumes "getNode t key = Some n"
  shows "\<exists>t'. Set t key d = Inr t' \<and> GetItem t' key = Inr d \<and>
              (\<forall>k2. HasItem t' k2 = HasItem t k2) \<and>
              (\<forall>k2. k2 \<noteq> key \<longrightarrow> GetItem t' k2 = GetItem t k2)"
proof -
  from assms have "setData_loop (root t) key d \<noteq> None"
    by (simp add: getNode_def setData_loop_None_iff)
  then obtain r where r: "setData_loop (root t) key d = Some r" by auto
  note lk = setData_loop_look [OF r]
  from assms have l0: "look (root t) key = Some (isLeaf n, data n)"
    by (simp add: look_def getNode_def)
  have "Set t key d = Inr (t\<lparr>root := r\<rparr>)" using r by (simp add: Set_def)
  moreover have "GetItem (t\<lparr>root := r\<rparr>) key = Inr d"
    using lk [of key] l0 by (simp add: GetItem_look)
  moreover have "HasItem (t\<lparr>root := r\<rparr>) k2 = HasItem t k2" for k2
    using lk [of k2] by (auto simp: HasItem_look split: option.splits)
  moreover have "k2 \<noteq> key \<Longrightarrow> GetItem (t\<lparr>root := r\<rparr>) k2 = GetItem t k2" for k2
    using lk [of k2] by (simp add: GetItem_look)
  ultimately show ?thesis by blast
qed
section \<open>Reachable states are well formed\<close>

lemma same_node_keys:
  assumes "distinct (map fst es1)" "distinct (map fst es2)" "length es1 = length es2"
    and "\<And>k e1. (k, e1) \<in> set es1 \<Longrightarrow> map_of es2 k \<noteq> None"
  shows "fst ` set es1 = fst ` set es2"
proof -
  have sub: "fst ` set es1 \<subseteq> fst ` set es2"
  proof
    fix k assume "k \<in> fst ` set es1"
    then obtain e1 where "(k, e1) \<in> set es1" by auto
    from assms(4) [OF this] show "k \<in> fst ` set es2"
      by (auto dest: map_of_SomeD intro: rev_image_eqI)
  qed
  have "card (fst ` set es1) = card (fst ` set es2)"
    using assms(1-3) distinct_card [of "map fst es1"] distinct_card [of "map fst es2"] by simp
  with sub show ?thesis by (simp add: card_subset_eq)
qed

lemma same_nodeD:
  assumes "same_node n1 n2"
  shows "isLeaf n2 = isLeaf n1" "data n2 = data n1" "edges n1 = None \<longleftrightarrow> edges n2 = None"
    "distinct (map fst (edge_list (edges n1)))" "distinct (map fst (edge_list (edges n2)))"
    "fst ` set (edge_list (edges n1)) = fst ` set (edge_list (edges n2))"
    "\<And>k e2. lookup_edge (edges n2) k = Some e2 \<Longrightarrow>
       \<exists>e1. lookup_edge (edges n1) k = Some e1 \<and> label e1 = label e2 \<and>
            same_node (next_node e1) (next_node e2)"
proof -
  obtain lf1 eo1 d1 where n1: "n1 = Node lf1 eo1 d1" by (cases n1)
  obtain lf2 eo2 d2 where n2: "n2 = Node lf2 eo2 d2" by (cases n2)
  show "isLeaf n2 = isLeaf n1" "data n2 = data n1" "edges n1 = None \<longleftrightarrow> edges n2 = None"
    "distinct (map fst (edge_list (edges n1)))" "distinct (map fst (edge_list (edges n2)))"
    using assms unfolding n1 n2 by (auto split: option.splits)
  have keys: "fst ` set (edge_list eo1) = fst ` set (edge_list eo2)"
  proof (cases eo1)
    case None
    with assms show ?thesis unfolding n1 n2 by (auto split: option.splits)
  next
    case (Some es1)
    with assms obtain es2 where es2: "eo2 = Some es2" unfolding n1 n2 by (auto split: option.splits)
    have "fst ` set es1 = fst ` set es2"
      using assms unfolding n1 n2 Some es2
      by (intro same_node_keys) (auto split: option.splits)
    then show ?thesis using Some es2 by simp
  qed
  then show "fst ` set (edge_list (edges n1)) = fst ` set (edge_list (edges n2))"
    unfolding n1 n2 by simp
  fix k e2
  assume l2: "lookup_edge (edges n2) k = Some e2"
  then obtain es2 where es2: "eo2 = Some es2" unfolding n2 by (cases eo2) auto
  with assms obtain es1 where es1: "eo1 = Some es1" unfolding n1 n2 by (auto split: option.splits)
  from l2 es2 have "k \<in> fst ` set es2" unfolding n2 by (auto dest: map_of_SomeD intro: rev_image_eqI)
  with keys es1 es2 have "k \<in> fst ` set es1" by simp
  then obtain e1 where e1: "(k, e1) \<in> set es1" by auto
  with assms l2 have "label e1 = label e2 \<and> same_node (next_node e1) (next_node e2)"
    unfolding n1 n2 es1 es2 by (auto split: option.splits)
  moreover have "map_of es1 k = Some e1" using e1 assms unfolding n1 n2 es1 es2 by simp
  ultimately show "\<exists>e1. lookup_edge (edges n1) k = Some e1 \<and> label e1 = label e2 \<and>
            same_node (next_node e1) (next_node e2)"
    unfolding n1 es1 by auto
qed


lemma same_node_invar: "same_node n1 n2 \<Longrightarrow> invar n1 \<Longrightarrow> invar n2"
proof (induction n1 arbitrary: n2 rule: measure_induct_rule [where f = size])
  case (less n1)
  note sn = same_nodeD [OF less.prems(1)]
  obtain lf2 eo2 d2 where n2: "n2 = Node lf2 eo2 d2" by (cases n2)
  show ?case
  proof (cases eo2)
    case None
    then show ?thesis unfolding n2 by (simp add: invar_None)
  next
    case (Some es2)
    show ?thesis unfolding n2 Some
    proof (rule invarI)
      show "distinct (map fst es2)" using sn(5) n2 Some by simp
    next
      fix k e2
      assume "map_of es2 k = Some e2"
      then have "lookup_edge (edges n2) k = Some e2" using n2 Some by simp
      from sn(7) [OF this] obtain e1 where
        e1: "lookup_edge (edges n1) k = Some e1" "label e1 = label e2"
            "same_node (next_node e1) (next_node e2)" by blast
      from invarD [OF less.prems(2) e1(1)] e1(2)
      have "label e2 \<noteq> []" "hd (label e2) = k" "invar (next_node e1)" by simp_all
      moreover have "invar (next_node e2)"
        using less.IH [OF lookup_edge_size [OF e1(1)] e1(3)] \<open>invar (next_node e1)\<close> by simp
      ultimately show "label e2 \<noteq> [] \<and> hd (label e2) = k \<and> invar (next_node e2)" by simp
    qed
  qed
qed

lemma reachable_invar: "reachable t \<Longrightarrow> invar (root t)"
proof (induction rule: reachable.induct)
  case reach_new
  show ?case by (simp add: NewTrie_def invar.simps)
next
  case (reach_sorted t b)
  then show ?case by (simp add: Sorted_def)
next
  case (reach_insert t key d)
  then show ?case
    by (cases "key = []") (simp_all add: InsertItem_def InsertItem_loop_correct)
next
  case (reach_delete t key t')
  then show ?case
    by (auto simp: DeleteItem_def split: sum.splits option.splits dest: delete_invar)
next
  case (reach_set t key d t')
  then show ?case
    by (auto simp: Set_def split: option.splits dest: setData_loop_invar)
next
  case (reach_order t r)
  then show ?case by (auto dest: same_node_invar)
qed
section \<open>Prefix enumeration lemmas\<close>

text \<open>
  \<^verbatim>\<open>startsWith\<close> finds the first node at or below the prefix, together with the path of
  that node; every stored key that starts with the prefix lies below that node.
\<close>

lemma gfm_prefix_label: "prefix l a \<Longrightarrow> getFirstMismatch a l = length l"
  by (simp add: gfm_eq_label_iff)

lemma gfm_prefix_key: "prefix a l \<Longrightarrow> getFirstMismatch a l = length a"
  by (simp add: gfm_eq_key_iff)

lemma drop_prefix_append: "prefix l a \<Longrightarrow> drop (length l) (a @ b) = drop (length l) a @ b"
  by (auto simp: prefix_def)

lemma drop_prefix_eq: "a = l @ r \<Longrightarrow> drop (length l) a = r"
  by simp

lemma startsWith_loop_Cons:
  "startsWith_loop pfx cur (b # bs) =
     (case lookup_edge (edges cur) b of
        None \<Rightarrow> None
      | Some e \<Rightarrow>
          if prefix (label e) (b # bs)
          then startsWith_loop pfx (next_node e) (drop (length (label e)) (b # bs))
          else if prefix (b # bs) (label e)
               then Some (next_node e, pfx @ drop (length (b # bs)) (label e))
               else None)"
proof (cases "lookup_edge (edges cur) b")
  case None
  then show ?thesis by simp
next
  case (Some e)
  show ?thesis
  proof (cases "prefix (label e) (b # bs)")
    case True
    then show ?thesis using Some by (simp add: Let_def gfm_prefix_label)
  next
    case False
    then have ne: "getFirstMismatch (b # bs) (label e) \<noteq> length (label e)"
      by (simp add: gfm_eq_label_iff)
    show ?thesis
    proof (cases "prefix (b # bs) (label e)")
      case True
      then have "getFirstMismatch (b # bs) (label e) = length (b # bs)" by (rule gfm_prefix_key)
      then show ?thesis using Some False True ne by (simp add: Let_def)
    next
      case nk: False
      then have "getFirstMismatch (b # bs) (label e) \<noteq> length (b # bs)"
        by (simp only: gfm_eq_key_iff not_False_eq_True)
      then show ?thesis using Some False nk ne by (simp add: Let_def)
    qed
  qed
qed

declare startsWith_loop.simps(2) [simp del]

lemma getNode_loop_induct [case_names Nil Cons]:
  assumes "\<And>cur. P cur []"
    and "\<And>cur b bs. (\<And>e. lookup_edge (edges cur) b = Some e \<Longrightarrow> prefix (label e) (b # bs) \<Longrightarrow>
            P (next_node e) (drop (length (label e)) (b # bs))) \<Longrightarrow> P cur (b # bs)"
  shows "P cur key"
proof (induction cur key rule: getNode_loop.induct)
  case (1 cur)
  show ?case by (rule assms(1))
next
  case (2 cur b bs)
  show ?case
  proof (rule assms(2))
    fix e assume e: "lookup_edge (edges cur) b = Some e" and p: "prefix (label e) (b # bs)"
    then have "getFirstMismatch (b # bs) (label e) = length (label e)" by (simp add: gfm_eq_label_iff)
    with "2.IH" [OF e refl] show "P (next_node e) (drop (length (label e)) (b # bs))" by simp
  qed
qed

lemma getNode_loop_append:
  "getNode_loop cur a = Some m \<Longrightarrow> getNode_loop cur (a @ b) = getNode_loop m b"
proof (induction cur a rule: getNode_loop_induct)
  case (Nil cur)
  then show ?case by simp
next
  case (Cons cur c cs)
  from Cons.prems obtain e where e: "lookup_edge (edges cur) c = Some e"
    and p: "prefix (label e) (c # cs)"
    and g: "getNode_loop (next_node e) (drop (length (label e)) (c # cs)) = Some m"
    by (auto simp: getNode_loop_Cons split: option.splits if_splits)
  from p have p': "prefix (label e) (c # cs @ b)" using prefix_prefix [OF p, of b] by simp
  from p have d: "drop (length (label e)) (c # cs @ b) = drop (length (label e)) (c # cs) @ b"
    using drop_prefix_append [OF p, of b] by simp
  show ?case using Cons.IH [OF e p g] e p' d by (simp add: getNode_loop_Cons)
qed

lemma getNode_loop_invar:
  "getNode_loop cur a = Some m \<Longrightarrow> invar cur \<Longrightarrow> invar m"
proof (induction cur a rule: getNode_loop_induct)
  case (Nil cur)
  then show ?case by simp
next
  case (Cons cur c cs)
  from Cons.prems obtain e where e: "lookup_edge (edges cur) c = Some e"
    and p: "prefix (label e) (c # cs)"
    and g: "getNode_loop (next_node e) (drop (length (label e)) (c # cs)) = Some m"
    by (auto simp: getNode_loop_Cons split: option.splits if_splits)
  from invarD [OF Cons.prems(2) e] Cons.IH [OF e p g] show ?case by simp
qed

lemma getNode_loop_size:
  "getNode_loop cur a = Some m \<Longrightarrow> size m \<le> size cur"
proof (induction cur a rule: getNode_loop_induct)
  case (Nil cur)
  then show ?case by simp
next
  case (Cons cur c cs)
  from Cons.prems obtain e where e: "lookup_edge (edges cur) c = Some e"
    and p: "prefix (label e) (c # cs)"
    and g: "getNode_loop (next_node e) (drop (length (label e)) (c # cs)) = Some m"
    by (auto simp: getNode_loop_Cons split: option.splits if_splits)
  from lookup_edge_size [OF e] Cons.IH [OF e p g] show ?case by simp
qed

lemma startsWith_loop_getNode:
  "getNode_loop cur b = Some m \<Longrightarrow> startsWith_loop pfx cur b = Some (m, pfx)"
proof (induction cur b rule: getNode_loop_induct)
  case (Nil cur)
  then show ?case by simp
next
  case (Cons cur c cs)
  from Cons.prems obtain e where e: "lookup_edge (edges cur) c = Some e"
    and p: "prefix (label e) (c # cs)"
    and g: "getNode_loop (next_node e) (drop (length (label e)) (c # cs)) = Some m"
    by (auto simp: getNode_loop_Cons split: option.splits if_splits)
  show ?case using Cons.IH [OF e p g] e p by (simp add: startsWith_loop_Cons)
qed

lemma getNode_loop_edge:
  assumes "invar nd" "(c, e) \<in> set (edge_list (edges nd))"
  shows "getNode_loop nd (label e) = Some (next_node e)"
proof -
  have "map_of (edge_list (edges nd)) c = Some e"
    using assms by (simp add: invar_distinct)
  then have l: "lookup_edge (edges nd) c = Some e" by (simp add: map_of_edge_list)
  from invarD [OF assms(1) l] obtain cs where "label e = c # cs" by (cases "label e") auto
  then show ?thesis using l by (simp add: getNode_loop_Cons)
qed

lemma startsWith_loop_Some:
  "startsWith_loop pfx cur b = Some (nd, pref) \<Longrightarrow>
   \<exists>q. pref = pfx @ q \<and> getNode_loop cur (b @ q) = Some nd \<and>
       (\<forall>k. prefix b k \<longrightarrow> item cur k = (if prefix (b @ q) k then item nd (drop (length (b @ q)) k) else None))"
proof (induction cur b rule: getNode_loop_induct)
  case (Nil cur)
  then show ?case by (auto simp: item_def)
next
  case (Cons cur c cs)
  from Cons.prems obtain e where e: "lookup_edge (edges cur) c = Some e"
    by (auto simp: startsWith_loop_Cons split: option.splits)
  have old: "item cur k = item_edge e k" if "prefix (c # cs) k" for k
    using that e by (cases k) (auto simp: item_Cons)
  show ?case
  proof (cases "prefix (label e) (c # cs)")
    case True
    then obtain b' where b': "c # cs = label e @ b'" by (auto simp: prefix_def)
    then have d: "drop (length (label e)) (c # cs) = b'" by (rule drop_prefix_eq)
    from Cons.prems e True have "startsWith_loop pfx (next_node e) (drop (length (label e)) (c # cs)) = Some (nd, pref)"
      by (simp add: startsWith_loop_Cons)
    from Cons.IH [OF e True this] d obtain q where q: "pref = pfx @ q"
      "getNode_loop (next_node e) (b' @ q) = Some nd"
      "\<And>k. prefix b' k \<Longrightarrow> item (next_node e) k = (if prefix (b' @ q) k then item nd (drop (length (b' @ q)) k) else None)"
      by auto
    have g: "getNode_loop cur ((c # cs) @ q) = Some nd"
    proof -
      have "prefix (label e) (c # (cs @ q))" using prefix_prefix [OF True, of q] by simp
      moreover have "drop (length (label e)) (c # (cs @ q)) = b' @ q"
        using drop_prefix_append [OF True, of q] d by simp
      ultimately show ?thesis using e q(2) by (simp add: getNode_loop_Cons)
    qed
    have "item cur k = (if prefix ((c # cs) @ q) k then item nd (drop (length ((c # cs) @ q)) k) else None)"
      if pk: "prefix (c # cs) k" for k
    proof -
      from pk obtain z where z: "k = (c # cs) @ z" by (auto simp: prefix_def)
      define k' where "k' = b' @ z"
      have k': "k = label e @ k'" "prefix b' k'" using z b' by (simp_all add: k'_def)
      have "item cur k = item (next_node e) k'" using old [OF pk] k' by (simp add: item_edge_def)
      also have "\<dots> = (if prefix (b' @ q) k' then item nd (drop (length (b' @ q)) k') else None)"
        using q(3) [OF k'(2)] .
      also have "\<dots> = (if prefix ((c # cs) @ q) k then item nd (drop (length ((c # cs) @ q)) k) else None)"
        unfolding b' k'(1) by simp
      finally show ?thesis .
    qed
    with q(1) g show ?thesis by blast
  next
    case False
    with Cons.prems e have short: "prefix (c # cs) (label e)"
      and res: "nd = next_node e" "pref = pfx @ drop (length (c # cs)) (label e)"
      by (auto simp: startsWith_loop_Cons split: if_splits)
    let ?q = "drop (length (c # cs)) (label e)"
    have l: "(c # cs) @ ?q = label e" using short by (auto simp: prefix_def)
    from l obtain ls where ls: "label e = c # ls" by (cases "label e") auto
    have "getNode_loop cur (c # ls) = Some nd"
      using e res ls by (simp add: getNode_loop_Cons)
    then have "getNode_loop cur (label e) = Some nd" using ls by simp
    moreover have "item cur k = (if prefix (label e) k then item nd (drop (length (label e)) k) else None)"
      if "prefix (c # cs) k" for k
      using old [OF that] res by (simp add: item_edge_def)
    ultimately show ?thesis using res l by auto
  qed
qed

lemma startsWith_loop_None:
  "startsWith_loop pfx cur b = None \<Longrightarrow> prefix b k \<Longrightarrow> item cur k = None"
proof (induction cur b arbitrary: k rule: getNode_loop_induct)
  case (Nil cur)
  then show ?case by simp
next
  case (Cons cur c cs)
  from Cons.prems(2) obtain ks where k: "k = c # ks" by (cases k) auto
  show ?case
  proof (cases "lookup_edge (edges cur) c")
    case None
    then show ?thesis using k by (simp add: item_Cons)
  next
    case (Some e)
    have old: "item cur k = item_edge e k" using Some k by (simp add: item_Cons)
    show ?thesis
    proof (cases "prefix (label e) (c # cs)")
      case True
      then obtain b' where b': "c # cs = label e @ b'" by (auto simp: prefix_def)
      then have d: "drop (length (label e)) (c # cs) = b'" by (rule drop_prefix_eq)
      from Cons.prems(1) Some True have n: "startsWith_loop pfx (next_node e) (drop (length (label e)) (c # cs)) = None"
        by (simp add: startsWith_loop_Cons)
      from Cons.prems(2) obtain z where z: "k = (c # cs) @ z" by (auto simp: prefix_def)
      define k' where "k' = b' @ z"
      have k': "k = label e @ k'" "prefix b' k'" using z b' by (simp_all add: k'_def)
      from Cons.IH [OF Some True n, of k'] k' d have "item (next_node e) k' = None" by simp
      then show ?thesis using old k' by (simp add: item_edge_def)
    next
      case False
      with Cons.prems(1) Some have ns: "\<not> prefix (c # cs) (label e)"
        by (auto simp: startsWith_loop_Cons split: if_splits)
      have "\<not> prefix (label e) k"
      proof
        assume "prefix (label e) k"
        with Cons.prems(2) have "prefix (c # cs) (label e) \<or> prefix (label e) (c # cs)"
          by (rule prefix_same_cases)
        with False ns show False by blast
      qed
      then show ?thesis using old by (simp add: item_edge_def)
    qed
  qed
qed
text \<open>The keys stored below a node whose path from the root is \<open>path\<close>, in the order of \<^verbatim>\<open>Keys\<close>.\<close>

lemma set_size_edge_list:
  "(k, e) \<in> set (edge_list eo) \<Longrightarrow> size (next_node e) < Suc (size_option (size_list (size_prod (\<lambda>_. 0) size)) eo)"
  by (cases eo) (auto dest: set_size_edge)

function keys_below :: "node \<Rightarrow> string \<Rightarrow> string list" where
  "keys_below nd path =
     (if isLeaf nd then [path] else []) @
     concat (map (\<lambda>(_, e). keys_below (next_node e) (path @ label e)) (edge_list (edges nd)))"
  by pat_completeness auto
termination
  by (relation "measure (\<lambda>(nd, path). size nd)") (auto dest: set_size_edge_list simp: size_node_edges)

declare keys_below.simps [simp del]

lemma collect_map:
  "(\<And>x. x \<in> set xs \<Longrightarrow> F x = Some (G x)) \<Longrightarrow> collect (map F xs) = Some (concat (map G xs))"
  by (induction xs) auto

lemma edge_size:
  "(c, e) \<in> set (edge_list (edges nd)) \<Longrightarrow> size (next_node e) < size nd"
  by (auto dest: set_size_edge_list simp: size_node_edges)

lemma Keys_at_node:
  "invar (root t) \<Longrightarrow> getNode_loop (root t) path = Some nd \<Longrightarrow> size nd < fuel \<Longrightarrow>
   Keys fuel t path = Some (keys_below nd path)"
proof (induction nd arbitrary: path fuel rule: measure_induct_rule [where f = size])
  case (less nd)
  from less.prems(3) obtain f where fuel: "fuel = Suc f" by (cases fuel) auto
  have sw: "startsWith t path = Some (nd, path)"
    using less.prems(2) by (simp add: startsWith_def startsWith_loop_getNode)
  have inv: "invar nd" using less.prems(1,2) by (rule getNode_loop_invar [rotated])
  have child: "Keys f t (path @ label e) = Some (keys_below (next_node e) (path @ label e))"
    if "(c, e) \<in> set (edge_list (edges nd))" for c e
  proof -
    have "getNode_loop (root t) (path @ label e) = Some (next_node e)"
      using getNode_loop_append [OF less.prems(2)] getNode_loop_edge [OF inv that] by simp
    moreover have "size (next_node e) < f" using edge_size [OF that] less.prems(3) fuel by simp
    ultimately show ?thesis using less.IH [OF edge_size [OF that] less.prems(1)] by simp
  qed
  have "collect (map (\<lambda>(_, e). Keys f t (path @ label e)) (edge_list (edges nd))) =
        Some (concat (map (\<lambda>(_, e). keys_below (next_node e) (path @ label e)) (edge_list (edges nd))))"
    by (rule collect_map) (auto simp: child)
  then show ?case unfolding fuel by (simp add: sw keys_below.simps [of nd path])
qed

lemma distinct_concat_map:
  "distinct (map fst es) \<Longrightarrow> (\<And>x. x \<in> set es \<Longrightarrow> distinct (f x)) \<Longrightarrow>
   (\<And>x y. x \<in> set es \<Longrightarrow> y \<in> set es \<Longrightarrow> fst x \<noteq> fst y \<Longrightarrow> set (f x) \<inter> set (f y) = {}) \<Longrightarrow>
   distinct (concat (map f es))"
proof (induction es)
  case Nil
  show ?case by simp
next
  case (Cons a es)
  have "distinct (concat (map f es))" using Cons by (intro Cons.IH) auto
  moreover have "distinct (f a)" using Cons.prems(2) by simp
  moreover have "set (f a) \<inter> set (f y) = {}" if "y \<in> set es" for y
  proof -
    have "fst a \<noteq> fst y" using Cons.prems(1) that by auto
    then show ?thesis using Cons.prems(3) [of a y] that by simp
  qed
  ultimately show ?case by auto
qed

lemma keys_below_correct:
  "invar nd \<Longrightarrow>
   distinct (keys_below nd path) \<and> set (keys_below nd path) = {path @ s |s. item nd s \<noteq> None}"
proof (induction nd arbitrary: path rule: measure_induct_rule [where f = size])
  case (less nd)
  let ?es = "edge_list (edges nd)"
  let ?f = "\<lambda>(c, e). keys_below (next_node e) (path @ label e)"
  have look: "lookup_edge (edges nd) c = Some e" if "(c, e) \<in> set ?es" for c e
    using that less.prems by (simp add: invar_distinct map_of_edge_list [symmetric])
  have IH: "distinct (keys_below (next_node e) (path @ label e)) \<and>
            set (keys_below (next_node e) (path @ label e)) = {path @ label e @ s |s. item (next_node e) s \<noteq> None}"
    if "(c, e) \<in> set ?es" for c e
    using less.IH [OF edge_size [OF that], of "path @ label e"] invarD [OF less.prems look [OF that]]
    by simp
  have lab: "\<exists>ls. label e = c # ls" if "(c, e) \<in> set ?es" for c e
    using invarD [OF less.prems look [OF that]] by (cases "label e") auto
  have children: "set (concat (map ?f ?es)) = {path @ s |s. s \<noteq> [] \<and> item nd s \<noteq> None}"
  proof (intro set_eqI iffI)
    fix x assume "x \<in> set (concat (map ?f ?es))"
    then obtain c e where ce: "(c, e) \<in> set ?es" and x: "x \<in> set (keys_below (next_node e) (path @ label e))"
      by auto
    from x IH [OF ce] obtain s where s: "x = path @ label e @ s" "item (next_node e) s \<noteq> None" by auto
    from lab [OF ce] obtain ls where ls: "label e = c # ls" by blast
    have "item nd (label e @ s) \<noteq> None"
      using look [OF ce] s(2) ls by (simp add: item_Cons item_edge_def)
    then show "x \<in> {path @ s |s. s \<noteq> [] \<and> item nd s \<noteq> None}" using s(1) ls by auto
  next
    fix x assume "x \<in> {path @ s |s. s \<noteq> [] \<and> item nd s \<noteq> None}"
    then obtain c cs where x: "x = path @ c # cs" and it: "item nd (c # cs) \<noteq> None"
      by (auto simp: neq_Nil_conv)
    from it obtain e where e: "lookup_edge (edges nd) c = Some e" and pre: "prefix (label e) (c # cs)"
      and it': "item (next_node e) (drop (length (label e)) (c # cs)) \<noteq> None"
      by (auto simp: item_Cons item_edge_def split: option.splits if_splits)
    from e have ce: "(c, e) \<in> set ?es" by (auto simp: map_of_edge_list [symmetric] dest: map_of_SomeD)
    from pre obtain r where r: "c # cs = label e @ r" by (auto simp: prefix_def)
    then have "drop (length (label e)) (c # cs) = r" by (rule drop_prefix_eq)
    with it' have "path @ label e @ r \<in> set (keys_below (next_node e) (path @ label e))"
      using IH [OF ce] by auto
    then have "x \<in> set (?f (c, e))" using x r by simp
    with ce show "x \<in> set (concat (map ?f ?es))" by (auto intro!: bexI [of _ "(c, e)"])
  qed
  have d1: "distinct (concat (map ?f ?es))"
  proof (rule distinct_concat_map)
    show "distinct (map fst ?es)" using less.prems by (rule invar_distinct)
  next
    fix x assume xin: "x \<in> set ?es"
    obtain c e where x: "x = (c, e)" by (cases x)
    from IH [of c e] xin x show "distinct (?f x)" by simp
  next
    fix x y assume xy: "x \<in> set ?es" "y \<in> set ?es" "fst x \<noteq> fst y"
    obtain c e where x: "x = (c, e)" by (cases x)
    obtain c' e' where y: "y = (c', e')" by (cases y)
    from lab xy x obtain ls where ls: "label e = c # ls" by blast
    from lab xy y obtain ls' where ls': "label e' = c' # ls'" by blast
    show "set (?f x) \<inter> set (?f y) = {}"
      using IH [of c e] IH [of c' e'] xy x y ls ls' by auto
  qed
  have d2: "path \<notin> set (concat (map ?f ?es))" unfolding children by simp
  have "set (keys_below nd path) = {path @ s |s. item nd s \<noteq> None}"
  proof -
    have "{path @ s |s. item nd s \<noteq> None} =
          (if isLeaf nd then {path} else {}) \<union> {path @ s |s. s \<noteq> [] \<and> item nd s \<noteq> None}"
      by (auto simp: item_Nil split: if_splits)
    then show ?thesis unfolding keys_below.simps [of nd path] using children by auto
  qed
  moreover have "distinct (keys_below nd path)"
    unfolding keys_below.simps [of nd path] using d1 d2 by auto
  ultimately show ?case by blast
qed

lemma Keys_cong_startsWith:
  "startsWith t p = startsWith t p' \<Longrightarrow> Keys fuel t p = Keys fuel t p'"
  by (cases fuel) simp_all
section \<open>Traversal lemmas\<close>

text \<open>
  With the sorted flag the list of keys is the same for every order of the map's
  entries, and every key of the list is in the map, so the walk never reads a missing
  entry.
\<close>

lemma lookup_edge_None_iff: "lookup_edge m k = None \<longleftrightarrow> k \<notin> fst ` set (edge_list m)"
  by (cases m) (simp_all add: map_of_eq_None_iff)

lemma set_keys: "set (keys m srt) = fst ` set (edge_list m)"
  by (simp add: keys_def Let_def)

lemma same_node_lookup:
  assumes "same_node n1 n2"
  shows "(lookup_edge (edges n1) k = None \<and> lookup_edge (edges n2) k = None) \<or>
         (\<exists>e1 e2. lookup_edge (edges n1) k = Some e1 \<and> lookup_edge (edges n2) k = Some e2 \<and>
                  label e1 = label e2 \<and> same_node (next_node e1) (next_node e2))"
proof (cases "lookup_edge (edges n2) k")
  case None
  then have "lookup_edge (edges n1) k = None"
    using same_nodeD(6) [OF assms] by (simp add: lookup_edge_None_iff)
  with None show ?thesis by simp
next
  case (Some e2)
  from same_nodeD(7) [OF assms Some] Some show ?thesis by blast
qed

lemma same_node_keys_sorted:
  assumes "same_node n1 n2"
  shows "keys (edges n1) True = keys (edges n2) True"
proof -
  note d = same_nodeD [OF assms]
  have "sort (map fst (edge_list (edges n1))) = sort (map fst (edge_list (edges n2)))"
  proof (rule sorted_distinct_set_unique)
    show "set (sort (map fst (edge_list (edges n1)))) = set (sort (map fst (edge_list (edges n2))))"
      using d(6) by simp
  qed (simp_all add: d(4,5))
  then show ?thesis by (simp add: keys_def)
qed

declare traverse.simps [simp del]

lemma traverse_same_node:
  "same_node n1 n2 \<Longrightarrow> traverse True n1 step path fn s = traverse True n2 step path fn s"
proof (induction n1 arbitrary: n2 step path s rule: measure_induct_rule [where f = size])
  case (less n1)
  note sn = less.prems
  have range: "traverse_range True (edges n1) ks step path fn s' =
               traverse_range True (edges n2) ks step path fn s'" for ks s'
  proof (induction ks arbitrary: s')
    case Nil
    show ?case by simp
  next
    case (Cons k ks)
    from same_node_lookup [OF sn, of k] show ?case
    proof (elim disjE conjE exE)
      assume "lookup_edge (edges n1) k = None" "lookup_edge (edges n2) k = None"
      then show ?thesis by simp
    next
      fix e1 e2
      assume e: "lookup_edge (edges n1) k = Some e1" "lookup_edge (edges n2) k = Some e2"
        "label e1 = label e2" "same_node (next_node e1) (next_node e2)"
      have "traverse True (next_node e1) (step + 1) (path @ label e1) fn s' =
            traverse True (next_node e2) (step + 1) (path @ label e2) fn s'"
        using less.IH [OF lookup_edge_size [OF e(1)] e(4)] e(3) by simp
      then show ?thesis using e(1,2) Cons.IH
        by (simp split: sum.splits prod.splits option.splits)
    qed
  qed
  show ?case
    unfolding traverse.simps [of True n1] traverse.simps [of True n2]
    using same_nodeD(1,2) [OF sn] same_node_keys_sorted [OF sn] range
    by (simp split: prod.splits option.splits bool.splits)
qed

lemma traverse_returns:
  "\<exists>res. traverse srt nd step path (fn :: ('s, 'e) TFunc) s = Inr res"
  and "set ks \<subseteq> fst ` set (edge_list m) \<Longrightarrow>
       \<exists>res. traverse_range srt m ks step path (fn :: ('s, 'e) TFunc) s = Inr res"
proof (induction srt nd step path fn s and srt m ks step path fn s rule: traverse_traverse_range.induct)
  case (1 srt nd step path fn s)
  obtain s1 nxt err where f: "fn s step path (data nd) (isLeaf nd) = (s1, nxt, err)"
    by (cases "fn s step path (data nd) (isLeaf nd)") auto
  show ?case
  proof (cases err)
    case (Some a)
    then show ?thesis using f by (simp add: traverse.simps [of srt nd] split: bool.splits)
  next
    case None
    show ?thesis
    proof (cases nxt)
      case True
      from "1.IH" [OF f [symmetric]] True None
      have "\<exists>res. traverse_range srt (edges nd) (keys (edges nd) srt) step path fn s1 = Inr res"
        by (simp add: set_keys)
      then show ?thesis using f True None by (simp add: traverse.simps [of srt nd])
    next
      case False
      then show ?thesis using f None by (simp add: traverse.simps [of srt nd])
    qed
  qed
next
  case (2 srt m step path fn s)
  show ?case by simp
next
  case (3 srt m k ks step path fn s)
  from "3.prems" obtain e where e: "lookup_edge m k = Some e"
    by (cases "lookup_edge m k") (auto simp: lookup_edge_None_iff)
  from "3.IH"(1) [OF e] obtain s1 err where
    t: "traverse srt (next_node e) (step + 1) (path @ label e) fn s = Inr (s1, err)" by auto
  show ?case
  proof (cases err)
    case None
    from "3.IH"(2) [OF e t [unfolded None] refl refl] "3.prems"
    show ?thesis using e t None by simp
  next
    case (Some a)
    then show ?thesis using e t by simp
  qed
qed
section \<open>The calls of a traversal\<close>

text \<open>
  \<open>hops cur key\<close> counts the edges that \<open>getNode_loop\<close> follows from \<open>cur\<close> along \<open>key\<close>.
  \<open>visits\<close> lists the calls that a traversal makes to a callback that always asks to
  go on.  The paths of the calls ascend in the lexicographic order of byte strings, and
  there is one call for every node.
\<close>

type_synonym call = "nat \<times> string \<times> bytes \<times> bool"

function hops :: "node \<Rightarrow> string \<Rightarrow> nat" where
  "hops cur [] = 0"
| "hops cur (b # bs) =
     (case lookup_edge (edges cur) b of
        None \<Rightarrow> 0
      | Some e \<Rightarrow>
          if prefix (label e) (b # bs)
          then Suc (hops (next_node e) (drop (length (label e)) (b # bs)))
          else 0)"
  by pat_completeness auto
termination
  by (relation "measure (\<lambda>(cur, bPref). size cur)") (auto dest: lookup_edge_size)

declare hops.simps(2) [simp del]

function visits :: "bool \<Rightarrow> node \<Rightarrow> nat \<Rightarrow> string \<Rightarrow> call list" where
  "visits srt nd step path =
     (step, path, data nd, isLeaf nd) #
     concat (map (\<lambda>k. case lookup_edge (edges nd) k of
                         None \<Rightarrow> []
                       | Some e \<Rightarrow> visits srt (next_node e) (step + 1) (path @ label e))
                 (keys (edges nd) srt))"
  by pat_completeness auto
termination
  by (relation "measure (\<lambda>(srt, nd, step, path). size nd)") (auto dest: lookup_edge_size)

declare visits.simps [simp del]

lemma record_call_simp: "record_call s step path d lf = (s @ [(step, path, d, lf)], True, None)"
  by (simp add: record_call_def)

lemma traverse_record_call:
  "traverse srt nd step path record_call s = Inr (s @ visits srt nd step path, None)"
proof (induction nd arbitrary: step path s rule: measure_induct_rule [where f = size])
  case (less nd)
  let ?child = "\<lambda>k. case lookup_edge (edges nd) k of
                         None \<Rightarrow> []
                       | Some e \<Rightarrow> visits srt (next_node e) (step + 1) (path @ label e)"
  have range: "set ks \<subseteq> fst ` set (edge_list (edges nd)) \<Longrightarrow>
      traverse_range srt (edges nd) ks step path record_call s' =
        Inr (s' @ concat (map ?child ks), None)" for ks s'
  proof (induction ks arbitrary: s')
    case Nil
    show ?case by simp
  next
    case (Cons k ks)
    from Cons.prems obtain e where e: "lookup_edge (edges nd) k = Some e"
      by (cases "lookup_edge (edges nd) k") (auto simp: lookup_edge_None_iff)
    have "traverse srt (next_node e) (step + 1) (path @ label e) record_call s' =
          Inr (s' @ visits srt (next_node e) (step + 1) (path @ label e), None)"
      by (rule less.IH [OF lookup_edge_size [OF e]])
    then show ?case using e Cons.IH [of "s' @ visits srt (next_node e) (step + 1) (path @ label e)"] Cons.prems
      by simp
  qed
  show ?case
    unfolding traverse.simps [of srt nd] visits.simps [of srt nd]
    using range [of "keys (edges nd) srt" "s @ [(step, path, data nd, isLeaf nd)]"]
    by (simp add: record_call_simp set_keys)
qed


lemma less_append_nonempty: "q \<noteq> [] \<Longrightarrow> xs < xs @ (q :: string)"
  by (induction xs) (auto simp: neq_Nil_conv)

lemma less_append_Cons: "(a :: char) < b \<Longrightarrow> xs @ a # r < xs @ b # r'"
  by (induction xs) auto

lemma sorted_wrt_concat_map:
  "(\<And>k. k \<in> set ks \<Longrightarrow> sorted_wrt R (f k)) \<Longrightarrow>
   sorted_wrt (\<lambda>a b. \<forall>x \<in> set (f a). \<forall>y \<in> set (f b). R x y) ks \<Longrightarrow>
   sorted_wrt R (concat (map f ks))"
  by (induction ks) (auto simp: sorted_wrt_append)

lemma invar_label_Cons:
  "invar nd \<Longrightarrow> lookup_edge (edges nd) k = Some e \<Longrightarrow> \<exists>ls. label e = k # ls"
  by (drule (1) invarD) (cases "label e", auto)

lemma visits_cases:
  assumes "c \<in> set (visits srt nd step path)"
  obtains (root) "c = (step, path, data nd, isLeaf nd)"
  | (child) k e where "k \<in> set (keys (edges nd) srt)" "lookup_edge (edges nd) k = Some e"
      "c \<in> set (visits srt (next_node e) (step + 1) (path @ label e))"
proof (cases "c = (step, path, data nd, isLeaf nd)")
  case True
  then show ?thesis by (rule root)
next
  case False
  with assms obtain k where k: "k \<in> set (keys (edges nd) srt)"
    and c: "c \<in> set (case lookup_edge (edges nd) k of
                         None \<Rightarrow> []
                       | Some e \<Rightarrow> visits srt (next_node e) (step + 1) (path @ label e))"
    unfolding visits.simps [of srt nd] by auto
  show ?thesis
  proof (cases "lookup_edge (edges nd) k")
    case None
    with c show ?thesis by simp
  next
    case (Some e)
    with c k show ?thesis by (intro child [of k e]) simp_all
  qed
qed

lemma visits_prefix:
  "c \<in> set (visits srt nd step path) \<Longrightarrow> prefix path (fst (snd c))"
proof (induction nd arbitrary: step path c rule: measure_induct_rule [where f = size])
  case (less nd)
  from less.prems show ?case
  proof (cases rule: visits_cases)
    case root
    then show ?thesis by simp
  next
    case (child k e)
    from less.IH [OF lookup_edge_size [OF child(2)] child(3)] show ?thesis
      by (auto dest: append_prefixD)
  qed
qed

lemma visits_paths_sorted:
  "invar nd \<Longrightarrow> sorted_wrt (<) (map (\<lambda>c. fst (snd c)) (visits True nd step path))"
proof (induction nd arbitrary: step path rule: measure_induct_rule [where f = size])
  case (less nd)
  let ?ks = "keys (edges nd) True"
  define child where "child = (\<lambda>k. case lookup_edge (edges nd) k of
                         None \<Rightarrow> []
                       | Some e \<Rightarrow> map (\<lambda>c. fst (snd c)) (visits True (next_node e) (step + 1) (path @ label e)))"
  have elem: "\<exists>r. x = path @ k # r" if "x \<in> set (child k)" for x k
  proof -
    from that obtain e c where e: "lookup_edge (edges nd) k = Some e"
      and c: "c \<in> set (visits True (next_node e) (step + 1) (path @ label e))"
      and x: "x = fst (snd c)"
      unfolding child_def by (cases "lookup_edge (edges nd) k") auto
    from invar_label_Cons [OF less.prems e] obtain ls where ls: "label e = k # ls" by blast
    from visits_prefix [OF c] obtain q where "fst (snd c) = (path @ label e) @ q"
      by (auto simp: prefix_def)
    then show ?thesis using ls x by simp
  qed
  have child_sorted: "sorted_wrt (<) (child k)" for k
  proof (cases "lookup_edge (edges nd) k")
    case None
    then show ?thesis by (simp add: child_def)
  next
    case (Some e)
    from less.IH [OF lookup_edge_size [OF Some]] invarD [OF less.prems Some] Some
    show ?thesis by (simp add: child_def)
  qed
  have "distinct (map fst (edge_list (edges nd)))" using less.prems by (rule invar_distinct)
  then have ks: "sorted_wrt (<) ?ks" by (simp add: keys_def strict_sorted_iff)
  have cross: "sorted_wrt (\<lambda>a b. \<forall>x \<in> set (child a). \<forall>y \<in> set (child b). x < y) ?ks"
  proof (rule sorted_wrt_mono_rel [OF _ ks])
    fix a b :: char assume "a < b"
    show "\<forall>x \<in> set (child a). \<forall>y \<in> set (child b). x < y"
    proof (intro ballI)
      fix x y assume "x \<in> set (child a)" "y \<in> set (child b)"
      then obtain r r' where "x = path @ a # r" "y = path @ b # r'" using elem by blast
      then show "x < y" using \<open>a < b\<close> by (simp add: less_append_Cons)
    qed
  qed
  have rest: "sorted_wrt (<) (concat (map child ?ks))"
    by (rule sorted_wrt_concat_map) (auto intro: child_sorted cross)
  have first: "path < x" if "x \<in> set (concat (map child ?ks))" for x
  proof -
    from that obtain k where "x \<in> set (child k)" by auto
    with elem obtain r where "x = path @ k # r" by blast
    then show ?thesis by (simp add: less_append_nonempty)
  qed
  have "map (\<lambda>c. fst (snd c)) (visits True nd step path) = path # concat (map child ?ks)"
    unfolding visits.simps [of True nd] child_def
    by (auto simp: map_concat comp_def intro!: arg_cong [where f = concat] split: option.splits)
  then show ?case using rest first by simp
qed

lemma hops_edge:
  assumes "lookup_edge (edges nd) k = Some e" "label e = k # ls"
  shows "hops nd (label e @ q) = Suc (hops (next_node e) q)"
    and "getNode_loop nd (label e @ q) = getNode_loop (next_node e) q"
  using assms by (simp_all add: hops.simps(2) getNode_loop_Cons)

lemma visits_set:
  "invar nd \<Longrightarrow>
   set (visits srt nd step path) =
     {(step + hops nd p, path @ p, data n, isLeaf n) |p n. getNode_loop nd p = Some n}"
proof (induction nd arbitrary: step path rule: measure_induct_rule [where f = size])
  case (less nd)
  let ?ks = "keys (edges nd) srt"
  let ?R = "{(step + hops nd p, path @ p, data n, isLeaf n) |p n. getNode_loop nd p = Some n}"
  have IH: "set (visits srt (next_node e) (step + 1) (path @ label e)) =
      {(step + 1 + hops (next_node e) q, (path @ label e) @ q, data n, isLeaf n) |q n.
         getNode_loop (next_node e) q = Some n}"
    if "lookup_edge (edges nd) k = Some e" for k e
    using less.IH [OF lookup_edge_size [OF that]] invarD [OF less.prems that] by simp
  show ?case
  proof (intro set_eqI iffI)
    fix c assume "c \<in> set (visits srt nd step path)"
    then show "c \<in> ?R"
    proof (cases rule: visits_cases)
      case root
      have "getNode_loop nd [] = Some nd" by simp
      then show ?thesis using root by (auto intro!: exI [of _ "[]"])
    next
      case (child k e)
      note 2 = child
      from 2(3) IH [OF 2(2)] obtain q n where
        c: "c = (step + 1 + hops (next_node e) q, (path @ label e) @ q, data n, isLeaf n)"
        and g: "getNode_loop (next_node e) q = Some n" by auto
      from invar_label_Cons [OF less.prems 2(2)] obtain ls where ls: "label e = k # ls" by blast
      from hops_edge [OF 2(2) ls, of q] g c
      have "c = (step + hops nd (label e @ q), path @ (label e @ q), data n, isLeaf n)"
        "getNode_loop nd (label e @ q) = Some n" by simp_all
      then show ?thesis by blast
    qed
  next
    fix c assume "c \<in> ?R"
    then obtain p n where c: "c = (step + hops nd p, path @ p, data n, isLeaf n)"
      and g: "getNode_loop nd p = Some n" by auto
    show "c \<in> set (visits srt nd step path)"
    proof (cases p)
      case Nil
      then show ?thesis using c g unfolding visits.simps [of srt nd] by simp
    next
      case (Cons b bs)
      from g Cons obtain e where e: "lookup_edge (edges nd) b = Some e"
        and pre: "prefix (label e) (b # bs)"
        and g': "getNode_loop (next_node e) (drop (length (label e)) (b # bs)) = Some n"
        by (auto simp: getNode_loop_Cons split: option.splits if_splits)
      let ?q = "drop (length (label e)) (b # bs)"
      from pre have p: "p = label e @ ?q" using Cons by (auto simp: prefix_def)
      have h: "hops nd p = Suc (hops (next_node e) ?q)" using e pre Cons by (simp add: hops.simps(2))
      have "c \<in> set (visits srt (next_node e) (step + 1) (path @ label e))"
        unfolding IH [OF e] using c g' h p by auto
      moreover have "b \<in> set ?ks"
        using e lookup_edge_None_iff [of "edges nd" b] by (simp add: set_keys)
      ultimately show ?thesis unfolding visits.simps [of srt nd] using e
        by (auto intro!: bexI [of _ b])
    qed
  qed
qed
section \<open>Tries built by insertions\<close>

text \<open>
  The shape of a trie that was built by insertions only: the root is a non-leaf with a
  non-nil map and nil data; below it, a node is a leaf or has nil data and at least two
  edges, and its map is never empty without being nil.
\<close>

function canon :: "bool \<Rightarrow> node \<Rightarrow> bool" where
  "canon is_root (Node lf eo d) =
     ((if is_root then \<not> lf \<and> d = None \<and> eo \<noteq> None
       else (lf \<or> (d = None \<and> 2 \<le> len_edges eo)) \<and> eo \<noteq> Some []) \<and>
      (\<forall>(k, e) \<in> set (edge_list eo). canon False (next_node e)))"
  by pat_completeness auto
termination
  by (relation "measure (\<lambda>(is_root, nd). size nd)") (auto dest: set_size_edge_list)

inductive insert_built :: "trie \<Rightarrow> bool" where
  built_new: "insert_built NewTrie"
| built_sorted: "insert_built t \<Longrightarrow> insert_built (Sorted t b)"
| built_insert: "insert_built t \<Longrightarrow> insert_built (InsertItem t key d)"

lemma insert_built_reachable: "insert_built t \<Longrightarrow> reachable t"
  by (induction rule: insert_built.induct) (auto intro: reachable.intros)

lemma canon_sel:
  "canon r n \<longleftrightarrow>
     ((if r then \<not> isLeaf n \<and> data n = None \<and> edges n \<noteq> None
       else (isLeaf n \<or> (data n = None \<and> 2 \<le> len_edges (edges n))) \<and> edges n \<noteq> Some []) \<and>
      (\<forall>(k, e) \<in> set (edge_list (edges n)). canon False (next_node e)))"
  by (cases n) simp

declare canon.simps [simp del]

lemma canon_child:
  assumes "invar n" "canon r n" "lookup_edge (edges n) k = Some e"
  shows "canon False (next_node e)"
proof -
  have "(k, e) \<in> set (edge_list (edges n))"
    using assms(3) by (auto simp: map_of_edge_list [symmetric] dest: map_of_SomeD)
  with assms(2) show ?thesis unfolding canon_sel [of r n] by auto
qed

lemma length_update_le: "length al \<le> length (AList.update k v al)"
  by (induction al) auto

lemma update_not_Nil: "AList.update k v al \<noteq> []"
  by (cases al) auto

lemma canon_update:
  assumes "invar n" "canon r n" "canon False (next_node e)"
  shows "canon r (Node (isLeaf n) (Some (AList.update k e (edge_list (edges n)))) (data n))"
proof -
  let ?es = "AList.update k e (edge_list (edges n))"
  have len: "length (edge_list (edges n)) \<le> length ?es" by (rule length_update_le)
  have ne: "?es \<noteq> []" by (rule update_not_Nil)
  have le: "len_edges (edges n) = length (edge_list (edges n))" by (cases "edges n") simp_all
  have d: "distinct (map fst ?es)" using assms(1) by (simp add: distinct_update invar_distinct)
  have child: "canon False (next_node e')" if "(k', e') \<in> set ?es" for k' e'
  proof -
    from that d have "map_of ?es k' = Some e'" by simp
    then have "(k' = k \<and> e' = e) \<or> lookup_edge (edges n) k' = Some e'"
      by (auto simp: update_conv' map_of_edge_list split: if_splits)
    then show ?thesis using assms(3) canon_child [OF assms(1,2)] by blast
  qed
  show ?thesis
    unfolding canon_sel [of r "Node (isLeaf n) (Some ?es) (data n)"]
    using assms(2) len ne le child unfolding canon_sel [of r n]
    by (auto split: if_splits)
qed

lemma canon_leaf: "canon False (Node True None d)"
  by (simp add: canon.simps)

lemma canon_mark: "canon False nx \<Longrightarrow> canon False (Node True (edges nx) d)"
  unfolding canon_sel [of False nx] canon_sel [of False "Node True (edges nx) d"] by simp

lemma ins_edge_canon:
  assumes IH: "\<And>cur' key'. length key' < length key \<Longrightarrow> invar cur' \<Longrightarrow> canon False cur' \<Longrightarrow>
      key' \<noteq> [] \<Longrightarrow> canon False (InsertItem_loop cur' key' d)"
    and l: "l \<noteq> []" "hd l = hd key" and key: "key \<noteq> []" and nx: "invar nx" "canon False nx"
  shows "canon False (next_node (ins_edge (Edge l nx) key d))"
proof (cases rule: key_label_cases [of key l])
  case (match r)
  show ?thesis
  proof (cases r)
    case Nil
    with match l nx show ?thesis by (simp add: ins_edge_eq canon_mark)
  next
    case (Cons c r')
    with match have kl: "key = l @ c # r'" by simp
    have "length (c # r') < length key" using kl l by simp
    from IH [OF this nx] kl show ?thesis by (simp add: ins_edge_longer)
  qed
next
  case (short a l')
  have "canon False (Node True (Some [(a, Edge (a # l') nx)]) d)"
    using nx(2) by (simp add: canon.simps)
  then show ?thesis using key short by (simp add: ins_edge_short)
next
  case (split p a b l' b')
  have "canon False (Node False (Some [(a, Edge (a # l') nx), (b, Edge (b # b') (Node True None d))]) None)"
    using nx(2) by (simp add: canon.simps)
  then show ?thesis using split by (simp add: ins_edge_split)
qed

lemma InsertItem_loop_canon:
  "invar cur \<Longrightarrow> canon r cur \<Longrightarrow> key \<noteq> [] \<Longrightarrow> canon r (InsertItem_loop cur key d)"
proof (induction key arbitrary: cur r rule: length_induct)
  case (1 key)
  then obtain k bs where key: "key = k # bs" by (cases key) auto
  note inv = \<open>invar cur\<close> and can = \<open>canon r cur\<close>
  show ?case
  proof (cases "lookup_edge (edges cur) k")
    case None
    have "InsertItem_loop cur key d =
        Node (isLeaf cur) (Some (AList.update k (Edge key (Node True None d)) (edge_list (edges cur)))) (data cur)"
      using None key by (simp add: InsertItem_loop_None)
    then show ?thesis using canon_update [OF inv can, of "Edge key (Node True None d)" k]
      by (simp add: canon_leaf)
  next
    case (Some e)
    obtain l nx where e: "e = Edge l nx" by (cases e)
    from invarD [OF inv Some] e have l: "l \<noteq> []" "hd l = hd key" and nx: "invar nx"
      using key by simp_all
    have cnx: "canon False nx" using canon_child [OF inv can Some] e by simp
    have IH: "\<And>cur' key'. length key' < length key \<Longrightarrow> invar cur' \<Longrightarrow> canon False cur' \<Longrightarrow>
      key' \<noteq> [] \<Longrightarrow> canon False (InsertItem_loop cur' key' d)"
      using "1.IH" by blast
    have key_ne: "key \<noteq> []" using key by simp
    note E = ins_edge_canon [of key d l nx, OF IH l key_ne nx cnx]
    have "InsertItem_loop cur key d =
        Node (isLeaf cur) (Some (AList.update k (ins_edge (Edge l nx) key d) (edge_list (edges cur)))) (data cur)"
      using Some key e by (simp add: InsertItem_loop_Some)
    then show ?thesis using canon_update [OF inv can E, of k] by simp
  qed
qed

lemma insert_built_canon: "insert_built t \<Longrightarrow> canon True (root t)"
proof (induction rule: insert_built.induct)
  case built_new
  show ?case by (simp add: NewTrie_def canon.simps)
next
  case (built_sorted t b)
  then show ?case by (simp add: Sorted_def)
next
  case (built_insert t key d)
  have "invar (root t)" using built_insert.hyps by (intro reachable_invar insert_built_reachable)
  then show ?case using built_insert.IH
    by (cases "key = []") (simp_all add: InsertItem_def InsertItem_loop_canon)
qed


text \<open>
  Two tries of that shape that store the same keys with the same data are the same up
  to the order of their maps: every subtree stores a key, so the map keys agree, and a
  label is the longest prefix shared by the keys stored behind it.
\<close>

lemma item_via_edge:
  assumes "invar n" "lookup_edge (edges n) c = Some e"
  shows "item n (label e @ s) = item (next_node e) s"
proof -
  from invar_label_Cons [OF assms] obtain ls where ls: "label e = c # ls" by blast
  have "item n (c # ls @ s) = item_edge e ((c # ls) @ s)" using assms(2) by (simp add: item_Cons)
  also have "\<dots> = item (next_node e) s" using ls by (simp add: item_edge_def)
  finally show ?thesis using ls by simp
qed

lemma item_lookup:
  "item n (c # cs) \<noteq> None \<Longrightarrow> \<exists>e. lookup_edge (edges n) c = Some e \<and> prefix (label e) (c # cs)"
  by (auto simp: item_Cons item_edge_def split: option.splits if_splits)

lemma two_edges:
  assumes "invar m" "2 \<le> len_edges (edges m)"
  shows "\<exists>ca ea cb eb. ca \<noteq> cb \<and> lookup_edge (edges m) ca = Some ea \<and>
           lookup_edge (edges m) cb = Some eb"
proof -
  from assms(2) obtain es where es: "edges m = Some es" "2 \<le> length es"
    by (cases "edges m") auto
  then obtain x y rest where l: "es = x # y # rest"
    by (cases es; cases "tl es") auto
  obtain ca ea where x: "x = (ca, ea)" by (cases x)
  obtain cb eb where y: "y = (cb, eb)" by (cases y)
  have "distinct (map fst es)" using assms(1) es invar_distinct [of m] by simp
  then have ne: "ca \<noteq> cb" using l x y by simp
  have "lookup_edge (edges m) ca = Some ea" using es l x by simp
  moreover have "lookup_edge (edges m) cb = Some eb" using es l x y ne by simp
  ultimately show ?thesis using ne by blast
qed

lemma canon_has_key: "invar n \<Longrightarrow> canon False n \<Longrightarrow> \<exists>k. item n k \<noteq> None"
proof (induction n rule: measure_induct_rule [where f = size])
  case (less n)
  show ?case
  proof (cases "isLeaf n")
    case True
    then have "item n [] \<noteq> None" by (simp add: item_Nil)
    then show ?thesis by blast
  next
    case False
    with less.prems(2) have "2 \<le> len_edges (edges n)" unfolding canon_sel [of False n] by simp
    from two_edges [OF less.prems(1) this] obtain c e where
      e: "lookup_edge (edges n) c = Some e" by blast
    have "invar (next_node e)" using invarD [OF less.prems(1) e] by simp
    from less.IH [OF lookup_edge_size [OF e] this canon_child [OF less.prems e]]
    obtain s where "item (next_node e) s \<noteq> None" by blast
    then have "item n (label e @ s) \<noteq> None" using item_via_edge [OF less.prems(1) e] by simp
    then show ?thesis by blast
  qed
qed

lemma prefix_nth_after:
  "prefix l2 (l1 @ x # r) \<Longrightarrow> length l1 < length l2 \<Longrightarrow> l2 ! length l1 = x"
proof -
  assume "prefix l2 (l1 @ x # r)" and lt: "length l1 < length l2"
  then obtain zs where zs: "l1 @ x # r = l2 @ zs" by (auto simp: prefix_def)
  have "l2 ! length l1 = (l2 @ zs) ! length l1" using lt by (simp add: nth_append)
  also have "\<dots> = (l1 @ x # r) ! length l1" using zs by simp
  also have "\<dots> = x" by simp
  finally show ?thesis .
qed

lemma label_not_longer:
  assumes inv: "invar n1" "invar n2"
    and items: "\<And>k. item n1 k = item n2 k"
    and e1: "lookup_edge (edges n1) c = Some e1" and e2: "lookup_edge (edges n2) c = Some e2"
    and can: "canon False (next_node e1)"
  shows "\<not> length (label e1) < length (label e2)"
proof
  assume lt: "length (label e1) < length (label e2)"
  from invar_label_Cons [OF inv(1) e1] obtain ls where ls: "label e1 = c # ls" by blast
  have m1: "invar (next_node e1)" using invarD [OF inv(1) e1] by simp
  have via: "prefix (label e2) (label e1 @ s)" if "item (next_node e1) s \<noteq> None" for s
  proof -
    from that have "item n2 (label e1 @ s) \<noteq> None"
      using item_via_edge [OF inv(1) e1, of s] items by simp
    then have "item n2 (c # ls @ s) \<noteq> None" using ls by simp
    from item_lookup [OF this] e2 show ?thesis using ls by simp
  qed
  show False
  proof (cases "isLeaf (next_node e1)")
    case True
    then have "item (next_node e1) [] \<noteq> None" by (simp add: item_Nil)
    from via [OF this] have "length (label e2) \<le> length (label e1)"
      by (auto dest: prefix_length_le)
    with lt show False by simp
  next
    case False
    with can have "2 \<le> len_edges (edges (next_node e1))"
      unfolding canon_sel [of False "next_node e1"] by simp
    from two_edges [OF m1 this] obtain ca ea cb eb where ab: "ca \<noteq> cb"
      "lookup_edge (edges (next_node e1)) ca = Some ea"
      "lookup_edge (edges (next_node e1)) cb = Some eb" by blast
    have hit: "label e2 ! length (label e1) = x"
      if e: "lookup_edge (edges (next_node e1)) x = Some e" for x e
    proof -
      from invar_label_Cons [OF m1 e] obtain r where r: "label e = x # r" by blast
      have "invar (next_node e)" using invarD [OF m1 e] by simp
      from canon_has_key [OF this canon_child [OF m1 can e]]
      obtain s where "item (next_node e) s \<noteq> None" by blast
      then have "item (next_node e1) (label e @ s) \<noteq> None"
        using item_via_edge [OF m1 e, of s] by simp
      from via [OF this] have "prefix (label e2) (label e1 @ x # (r @ s))" using r by simp
      then show ?thesis using lt by (rule prefix_nth_after)
    qed
    from hit [OF ab(2)] hit [OF ab(3)] ab(1) show False by simp
  qed
qed

lemma same_nodeI:
  assumes "isLeaf n1 = isLeaf n2" "data n1 = data n2" "edges n1 = None \<longleftrightarrow> edges n2 = None"
    and "distinct (map fst (edge_list (edges n1)))" "distinct (map fst (edge_list (edges n2)))"
    and "length (edge_list (edges n1)) = length (edge_list (edges n2))"
    and "\<And>k e1. lookup_edge (edges n1) k = Some e1 \<Longrightarrow>
           \<exists>e2. lookup_edge (edges n2) k = Some e2 \<and> label e1 = label e2 \<and>
                same_node (next_node e1) (next_node e2)"
  shows "same_node n1 n2"
proof -
  obtain lf1 eo1 d1 where n1: "n1 = Node lf1 eo1 d1" by (cases n1)
  obtain lf2 eo2 d2 where n2: "n2 = Node lf2 eo2 d2" by (cases n2)
  show ?thesis
  proof (cases eo1)
    case None
    with assms(1-3) show ?thesis unfolding n1 n2 by simp
  next
    case (Some es1)
    with assms(3) obtain es2 where es2: "eo2 = Some es2" unfolding n1 n2 by auto
    have "case map_of es2 k of None \<Rightarrow> False
          | Some e2 \<Rightarrow> label e1 = label e2 \<and> same_node (next_node e1) (next_node e2)"
      if "(k, e1) \<in> set es1" for k e1
    proof -
      from that assms(4) have "lookup_edge (edges n1) k = Some e1" unfolding n1 Some by simp
      from assms(7) [OF this] show ?thesis unfolding n2 es2 by auto
    qed
    then show ?thesis using assms(1,2,4,5,6) unfolding n1 n2 Some es2 by auto
  qed
qed

lemma canon_unique:
  "invar n1 \<Longrightarrow> invar n2 \<Longrightarrow> canon r n1 \<Longrightarrow> canon r n2 \<Longrightarrow> (\<And>k. item n1 k = item n2 k) \<Longrightarrow>
   same_node n1 n2"
proof (induction n1 arbitrary: n2 r rule: measure_induct_rule [where f = size])
  case (less n1)
  note inv1 = less.prems(1) and inv2 = less.prems(2)
    and can1 = less.prems(3) and can2 = less.prems(4) and items = less.prems(5)
  have agree: "\<exists>e2. lookup_edge (edges b) c = Some e2"
    if "invar a" "canon r a" "lookup_edge (edges a) c = Some e1" "\<And>k. item a k = item b k"
    for a b :: node and c e1
  proof -
    have "invar (next_node e1)" using invarD [OF that(1,3)] by simp
    from canon_has_key [OF this canon_child [OF that(1-3)]]
    obtain s where "item (next_node e1) s \<noteq> None" by blast
    then have "item a (label e1 @ s) \<noteq> None" using item_via_edge [OF that(1,3)] by simp
    moreover from invar_label_Cons [OF that(1,3)] obtain ls where "label e1 = c # ls" by blast
    ultimately have "item b (c # ls @ s) \<noteq> None" using that(4) by simp
    from item_lookup [OF this] show ?thesis by blast
  qed
  have keys: "fst ` set (edge_list (edges n1)) = fst ` set (edge_list (edges n2))"
  proof (intro set_eqI iffI)
    fix c assume "c \<in> fst ` set (edge_list (edges n1))"
    then obtain e1 where "lookup_edge (edges n1) c = Some e1"
      using lookup_edge_None_iff [of "edges n1" c] by auto
    from agree [OF inv1 can1 this items] show "c \<in> fst ` set (edge_list (edges n2))"
      using lookup_edge_None_iff [of "edges n2" c] by auto
  next
    fix c assume "c \<in> fst ` set (edge_list (edges n2))"
    then obtain e2 where "lookup_edge (edges n2) c = Some e2"
      using lookup_edge_None_iff [of "edges n2" c] by auto
    from agree [OF inv2 can2 this items [symmetric]] show "c \<in> fst ` set (edge_list (edges n1))"
      using lookup_edge_None_iff [of "edges n1" c] by auto
  qed
  have d1: "distinct (map fst (edge_list (edges n1)))" using inv1 by (rule invar_distinct)
  have d2: "distinct (map fst (edge_list (edges n2)))" using inv2 by (rule invar_distinct)
  have len: "length (edge_list (edges n1)) = length (edge_list (edges n2))"
    using keys distinct_card [OF d1] distinct_card [OF d2] by simp
  have leaf: "isLeaf n1 = isLeaf n2" using items [of "[]"] by (auto simp: item_Nil split: if_splits)
  have dat: "data n1 = data n2"
  proof (cases "isLeaf n1")
    case True
    with leaf items [of "[]"] show ?thesis by (simp add: item_Nil)
  next
    case False
    with leaf can1 can2 show ?thesis
      unfolding canon_sel [of r n1] canon_sel [of r n2] by (auto split: if_splits)
  qed
  have nil: "edges n1 = None \<longleftrightarrow> edges n2 = None"
  proof (cases r)
    case True
    with can1 can2 show ?thesis unfolding canon_sel [of r n1] canon_sel [of r n2] by auto
  next
    case False
    have "edges a = None \<longleftrightarrow> edge_list (edges a) = []" if "canon False a" for a
      using that unfolding canon_sel [of False a] by (cases "edges a") auto
    with False can1 can2 len show ?thesis by auto
  qed
  show ?case
  proof (rule same_nodeI [OF leaf dat nil d1 d2 len])
    fix c e1 assume e1: "lookup_edge (edges n1) c = Some e1"
    from agree [OF inv1 can1 e1 items] obtain e2 where e2: "lookup_edge (edges n2) c = Some e2"
      by blast
    note c1 = canon_child [OF inv1 can1 e1] and c2 = canon_child [OF inv2 can2 e2]
    from label_not_longer [OF inv1 inv2 items e1 e2 c1]
      label_not_longer [OF inv2 inv1 items [symmetric] e2 e1 c2]
    have leq: "length (label e1) = length (label e2)" by simp
    have i1: "invar (next_node e1)" using invarD [OF inv1 e1] by simp
    have i2: "invar (next_node e2)" using invarD [OF inv2 e2] by simp
    from canon_has_key [OF i1 c1]
    obtain s where s: "item (next_node e1) s \<noteq> None" by blast
    from invar_label_Cons [OF inv1 e1] obtain ls where ls: "label e1 = c # ls" by blast
    from s have "item n2 (c # ls @ s) \<noteq> None"
      using item_via_edge [OF inv1 e1, of s] items ls by simp
    from item_lookup [OF this] e2 have "prefix (label e2) (label e1 @ s)" using ls by simp
    with leq have lab: "label e1 = label e2" by (auto simp: prefix_def append_eq_append_conv)
    have sub: "item (next_node e1) k = item (next_node e2) k" for k
      using item_via_edge [OF inv1 e1, of k] item_via_edge [OF inv2 e2, of k] items lab by simp
    have "same_node (next_node e1) (next_node e2)"
      by (rule less.IH [OF lookup_edge_size [OF e1] i1 i2 c1 c2 sub])
    with e2 lab show "\<exists>e2. lookup_edge (edges n2) c = Some e2 \<and> label e1 = label e2 \<and>
                same_node (next_node e1) (next_node e2)" by blast
  qed
qed

text \<open>
  The stored items after an insertion, and two insertion-built tries with the same items.
\<close>

lemma item_InsertItem:
  "reachable t \<Longrightarrow> key \<noteq> [] \<Longrightarrow>
   item (root (InsertItem t key d)) k = (if k = key then Some d else item (root t) k)"
  using InsertItem_loop_correct [OF reachable_invar, of t key d] by (simp add: InsertItem_def)

lemma item_NewTrie: "item (root NewTrie) k = None"
  by (cases k) (simp_all add: NewTrie_def item_Nil item_Cons)

lemma item_Sorted: "item (root (Sorted t b)) k = item (root t) k"
  by (simp add: Sorted_def)

lemma same_content_items:
  assumes "\<And>k. HasItem t2 k = HasItem t k" "\<And>k. HasItem t k \<Longrightarrow> GetItem t2 k = GetItem t k"
  shows "item (root t) k = item (root t2) k"
proof (cases "item (root t) k")
  case None
  then have "\<not> HasItem t2 k" using assms(1) [of k] by (simp add: HasItem_item)
  with None show ?thesis by (simp add: HasItem_item)
next
  case (Some d)
  then have h: "HasItem t k" by (simp add: HasItem_item)
  then have "HasItem t2 k" using assms(1) by simp
  then obtain d2 where d2: "item (root t2) k = Some d2" by (auto simp: HasItem_item)
  from assms(2) [OF h] GetItem_item [OF Some] GetItem_item [OF d2] have "d2 = d" by simp
  with Some d2 show ?thesis by simp
qed

lemma insert_built_same_node:
  assumes "insert_built t" "insert_built t2"
    and "\<And>k. HasItem t2 k = HasItem t k" "\<And>k. HasItem t k \<Longrightarrow> GetItem t2 k = GetItem t k"
  shows "same_node (root t2) (root t)"
proof (rule canon_unique [where r = True])
  show "invar (root t2)" "invar (root t)"
    using assms(1,2) by (auto intro: reachable_invar insert_built_reachable)
  show "canon True (root t2)" "canon True (root t)"
    using assms(1,2) by (auto intro: insert_built_canon)
  show "\<And>k. item (root t2) k = item (root t) k"
    using same_content_items [of t2 t, OF assms(3,4)] by simp
qed
section \<open>The claims\<close>

subsection \<open>C1: deleting a key that is not stored\<close>

text \<open>
  C1 states that \<^verbatim>\<open>DeleteItem(k)\<close> leaves the trie unchanged when \<open>k\<close> is not stored.
  \<^verbatim>\<open>delete\<close> selects an edge by the first byte of the key and then skips as many bytes
  as the label is long, without comparing them with the label (as \<^verbatim>\<open>getNode\<close> does).
  With only \<open>abcd\<close> stored, deleting the absent key \<open>abxx\<close> removes \<open>abcd\<close>.
\<close>

theorem delete_absent_key_removes_other:
  "\<not> HasItem (InsertItem NewTrie ''abcd'' (Some ''v'')) ''abxx'' \<and>
   HasItem (InsertItem NewTrie ''abcd'' (Some ''v'')) ''abcd'' \<and>
   DeleteItem (InsertItem NewTrie ''abcd'' (Some ''v'')) ''abxx'' = Inr NewTrie \<and>
   \<not> HasItem NewTrie ''abcd''"
  by code_simp

subsection \<open>C2: the operations never panic\<close>

text \<open>
  C2 states that \<^verbatim>\<open>InsertItem\<close>, \<^verbatim>\<open>HasItem\<close>, \<^verbatim>\<open>DeleteItem\<close> and \<^verbatim>\<open>Keys\<close> never panic.
  With only \<open>abcd\<close> stored, \<^verbatim>\<open>DeleteItem("ab")\<close> evaluates \<^verbatim>\<open>key[4:]\<close> on a key of length
  two, which is a slice-bounds panic.
\<close>

theorem delete_short_key_panics:
  "DeleteItem (InsertItem NewTrie ''abcd'' (Some ''v'')) ''ab'' = Inl SliceBoundsOutOfRange"
  by code_simp

subsection \<open>C3: \<^verbatim>\<open>GetItem\<close> and \<^verbatim>\<open>Set\<close> on a key that is not stored\<close>

text \<open>
  C3 states that \<^verbatim>\<open>GetItem\<close> and \<^verbatim>\<open>Set\<close> signal NotFound when the key is absent or its
  node is not a leaf, and never dereference a missing node or write to one.  \<^verbatim>\<open>getNode\<close>
  returns nil for an absent key, and \<^verbatim>\<open>GetItem\<close> and \<^verbatim>\<open>Set\<close> read and write the \<^verbatim>\<open>data\<close>
  field of its result without the nil test that \<^verbatim>\<open>HasItem\<close>, \<^verbatim>\<open>Keys\<close> and \<^verbatim>\<open>traverse\<close> make.
  With \<open>ab\<close> and \<open>ac\<close> stored, \<^verbatim>\<open>GetItem("zz")\<close> and \<^verbatim>\<open>Set("zz", x)\<close> dereference nil.  The
  node at \<open>a\<close> is not a leaf: \<^verbatim>\<open>Set("a", x)\<close> writes its data, and \<^verbatim>\<open>GetItem("a")\<close> then
  returns \<open>x\<close> for a key that \<^verbatim>\<open>HasItem\<close> reports as not stored.
\<close>

theorem GetItem_Set_nil_dereference:
  "InsertItem (InsertItem NewTrie ''ab'' (Some ''1'')) ''ac'' (Some ''2'')
     = \<lparr>root = Node False (Some [(CHR ''a'', Edge ''a'' (Node False
                (Some [(CHR ''b'', Edge ''b'' (Node True None (Some ''1''))),
                       (CHR ''c'', Edge ''c'' (Node True None (Some ''2'')))]) None))]) None,
            sorted_flag = False\<rparr> \<and>
   \<not> HasItem (InsertItem (InsertItem NewTrie ''ab'' (Some ''1'')) ''ac'' (Some ''2'')) ''zz'' \<and>
   getNode (InsertItem (InsertItem NewTrie ''ab'' (Some ''1'')) ''ac'' (Some ''2'')) ''zz'' = None \<and>
   GetItem (InsertItem (InsertItem NewTrie ''ab'' (Some ''1'')) ''ac'' (Some ''2'')) ''zz''
     = Inl NilDereference \<and>
   Set (InsertItem (InsertItem NewTrie ''ab'' (Some ''1'')) ''ac'' (Some ''2'')) ''zz'' (Some ''x'')
     = Inl NilDereference \<and>
   \<not> HasItem (InsertItem (InsertItem NewTrie ''ab'' (Some ''1'')) ''ac'' (Some ''2'')) ''a'' \<and>
   GetItem (InsertItem (InsertItem NewTrie ''ab'' (Some ''1'')) ''ac'' (Some ''2'')) ''a'' = Inr None \<and>
   Set (InsertItem (InsertItem NewTrie ''ab'' (Some ''1'')) ''ac'' (Some ''2'')) ''a'' (Some ''x'')
     = Inr \<lparr>root = Node False (Some [(CHR ''a'', Edge ''a'' (Node False
                (Some [(CHR ''b'', Edge ''b'' (Node True None (Some ''1''))),
                       (CHR ''c'', Edge ''c'' (Node True None (Some ''2'')))]) (Some ''x'')))]) None,
            sorted_flag = False\<rparr> \<and>
   \<not> HasItem \<lparr>root = Node False (Some [(CHR ''a'', Edge ''a'' (Node False
                (Some [(CHR ''b'', Edge ''b'' (Node True None (Some ''1''))),
                       (CHR ''c'', Edge ''c'' (Node True None (Some ''2'')))]) (Some ''x'')))]) None,
            sorted_flag = False\<rparr> ''a'' \<and>
   GetItem \<lparr>root = Node False (Some [(CHR ''a'', Edge ''a'' (Node False
                (Some [(CHR ''b'', Edge ''b'' (Node True None (Some ''1''))),
                       (CHR ''c'', Edge ''c'' (Node True None (Some ''2'')))]) (Some ''x'')))]) None,
            sorted_flag = False\<rparr> ''a'' = Inr (Some ''x'')"
  by code_simp

subsection \<open>C4: deleting a stored key\<close>

text \<open>
  C4: in a reachable state, \<^verbatim>\<open>DeleteItem(k)\<close> of a stored key \<open>k\<close> returns without a
  panic; afterwards \<^verbatim>\<open>HasItem(k)\<close> is false, \<^verbatim>\<open>HasItem\<close> of every other key is as before,
  and \<^verbatim>\<open>GetItem\<close> of every other stored key returns the same data, also when a node was
  merged with its only remaining child.
\<close>

theorem DeleteItem_present:
  assumes "reachable t" "HasItem t k"
  shows "\<exists>t'. DeleteItem t k = Inr t' \<and> \<not> HasItem t' k \<and>
           (\<forall>k2. k2 \<noteq> k \<longrightarrow> HasItem t' k2 = HasItem t k2 \<and>
                  (HasItem t k2 \<longrightarrow> GetItem t' k2 = GetItem t k2))"
proof -
  have inv: "invar (root t)" using assms(1) by (rule reachable_invar)
  have it: "item (root t) k \<noteq> None" using assms(2) by (simp add: HasItem_item)
  from delete_correct [OF inv it, of True] obtain n' where
    del: "delete True (root t) k = Inr (Some n')" and
    spec: "\<And>k2. item n' k2 = (if k2 = k then None else item (root t) k2)"
    by (auto split: option.splits)
  let ?t' = "t\<lparr>root := n'\<rparr>"
  have "DeleteItem t k = Inr ?t'" using del by (simp add: DeleteItem_def)
  moreover have "\<not> HasItem ?t' k" using spec [of k] by (simp add: HasItem_item)
  moreover have "HasItem ?t' k2 = HasItem t k2" if "k2 \<noteq> k" for k2
    using spec [of k2] that by (simp add: HasItem_item)
  moreover have "GetItem ?t' k2 = GetItem t k2" if "k2 \<noteq> k" "HasItem t k2" for k2
  proof -
    from that(2) obtain d where d: "item (root t) k2 = Some d" by (auto simp: HasItem_item)
    then have "item (root ?t') k2 = Some d" using spec [of k2] that(1) by simp
    with d show ?thesis by (simp add: GetItem_item)
  qed
  ultimately show ?thesis by blast
qed

theorem DeleteItem_present_witness:
  "reachable (InsertItem (InsertItem NewTrie ''ab'' (Some ''1'')) ''ac'' (Some ''2'')) \<and>
   HasItem (InsertItem (InsertItem NewTrie ''ab'' (Some ''1'')) ''ac'' (Some ''2'')) ''ab'' \<and>
   (\<exists>t'. DeleteItem (InsertItem (InsertItem NewTrie ''ab'' (Some ''1'')) ''ac'' (Some ''2'')) ''ab'' = Inr t' \<and>
         \<not> HasItem t' ''ab'' \<and> HasItem t' ''ac'' \<and> GetItem t' ''ac'' = Inr (Some ''2''))"
proof -
  let ?t = "InsertItem (InsertItem NewTrie ''ab'' (Some ''1'')) ''ac'' (Some ''2'')"
  have r: "reachable ?t" by (intro reachable.intros)
  have h: "HasItem ?t ''ab''" by code_simp
  have h2: "HasItem ?t ''ac''" by code_simp
  have g2: "GetItem ?t ''ac'' = Inr (Some ''2'')" by code_simp
  from DeleteItem_present [OF r h] obtain t' where
    t': "DeleteItem ?t ''ab'' = Inr t'" "\<not> HasItem t' ''ab''"
    "\<forall>k2. k2 \<noteq> ''ab'' \<longrightarrow> HasItem t' k2 = HasItem ?t k2 \<and> (HasItem ?t k2 \<longrightarrow> GetItem t' k2 = GetItem ?t k2)"
    by blast
  from t'(3) h2 g2 have "HasItem t' ''ac'' \<and> GetItem t' ''ac'' = Inr (Some ''2'')" by simp
  with r h t' show ?thesis by blast
qed

subsection \<open>C5: a key is stored after its insertion\<close>

text \<open>
  C5 states, for every key, that after \<^verbatim>\<open>InsertItem(k, d)\<close> the key is stored with data
  \<open>d\<close>.  For the empty key the loop of \<^verbatim>\<open>InsertItem\<close> is not entered and nothing is stored.
\<close>

theorem InsertItem_empty_key_counterexample:
  "\<not> HasItem (InsertItem NewTrie [] (Some ''v'')) [] \<and>
   GetItem (InsertItem NewTrie [] (Some ''v'')) [] = Inr None"
  by code_simp

text \<open>
  C5 as amended: in every reachable state and for every non-empty key \<open>k\<close>, after
  \<^verbatim>\<open>InsertItem(k, d)\<close>, \<^verbatim>\<open>HasItem(k)\<close> is true and \<^verbatim>\<open>GetItem(k)\<close> returns \<open>d\<close>.
\<close>

theorem InsertItem_nonempty:
  assumes "reachable t" "k \<noteq> []"
  shows "HasItem (InsertItem t k d) k \<and> GetItem (InsertItem t k d) k = Inr d"
proof -
  have inv: "invar (root t)" using assms(1) by (rule reachable_invar)
  from InsertItem_loop_correct [OF inv assms(2), of d]
  have "item (root (InsertItem t k d)) k = Some d" by (simp add: InsertItem_def)
  then show ?thesis by (simp add: HasItem_item GetItem_item)
qed

theorem InsertItem_nonempty_witness:
  "reachable (InsertItem NewTrie ''home'' (Some ''1'')) \<and> ''homework'' \<noteq> [] \<and>
   HasItem (InsertItem (InsertItem NewTrie ''home'' (Some ''1'')) ''homework'' (Some ''2'')) ''homework'' \<and>
   GetItem (InsertItem (InsertItem NewTrie ''home'' (Some ''1'')) ''homework'' (Some ''2'')) ''homework'' = Inr (Some ''2'')"
proof -
  have r: "reachable (InsertItem NewTrie ''home'' (Some ''1''))" by (intro reachable.intros)
  have n: "''homework'' \<noteq> []" by simp
  from InsertItem_nonempty [OF r n, of "Some ''2''"] r n show ?thesis by blast
qed

subsection \<open>C6: \<^verbatim>\<open>Keys\<close> returns the stored keys with the given prefix\<close>

text \<open>
  C6: in every reachable state and for every prefix \<open>p\<close>, \<^verbatim>\<open>Keys(p)\<close> returns (with any
  fuel above the size of the tree the recursion ends, with the same list) a list without
  duplicates whose elements are exactly the stored keys that start with \<open>p\<close>; the list
  is empty when there is none.  Reachable states come in every order of the maps'
  entries, so this holds whatever the iteration order is.
\<close>

theorem Keys_prefix:
  assumes "reachable t"
  shows "\<exists>ks. (\<forall>fuel. size (root t) < fuel \<longrightarrow> Keys fuel t p = Some ks) \<and> distinct ks \<and>
              set ks = {k. HasItem t k \<and> prefix p k} \<and>
              ((\<forall>k. HasItem t k \<longrightarrow> \<not> prefix p k) \<longrightarrow> ks = [])"
proof -
  have inv: "invar (root t)" using assms by (rule reachable_invar)
  have "\<exists>ks. (\<forall>fuel. size (root t) < fuel \<longrightarrow> Keys fuel t p = Some ks) \<and> distinct ks \<and>
              set ks = {k. HasItem t k \<and> prefix p k}"
  proof (cases "startsWith t p")
    case None
    have "Keys fuel t p = Some []" if "size (root t) < fuel" for fuel
      using that None by (cases fuel) simp_all
    moreover have "{k. HasItem t k \<and> prefix p k} = {}"
      using startsWith_loop_None [of p "root t" p] None
      by (auto simp: startsWith_def HasItem_item)
    ultimately show ?thesis by (intro exI [of _ "[]"]) simp
  next
    case (Some a)
    obtain nd pref where a: "a = (nd, pref)" by (cases a)
    from startsWith_loop_Some [of p "root t" p nd pref] Some a obtain q where
      q: "pref = p @ q" "getNode_loop (root t) (p @ q) = Some nd"
      "\<And>k. prefix p k \<Longrightarrow> item (root t) k = (if prefix (p @ q) k then item nd (drop (length (p @ q)) k) else None)"
      by (auto simp: startsWith_def)
    have nd: "invar nd" using q(2) inv by (rule getNode_loop_invar)
    have sw: "startsWith t pref = Some (nd, pref)"
      using q(1,2) by (simp add: startsWith_def startsWith_loop_getNode)
    have "Keys fuel t p = Some (keys_below nd pref)" if "size (root t) < fuel" for fuel
    proof -
      have "size nd < fuel" using getNode_loop_size [OF q(2)] that by simp
      from Keys_at_node [OF inv _ this, of pref] q(1,2)
      have "Keys fuel t pref = Some (keys_below nd pref)" by simp
      moreover have "Keys fuel t p = Keys fuel t pref"
        by (rule Keys_cong_startsWith) (simp add: Some a sw)
      ultimately show ?thesis by simp
    qed
    moreover note kb = keys_below_correct [OF nd, of pref]
    moreover have "{pref @ s |s. item nd s \<noteq> None} = {k. HasItem t k \<and> prefix p k}"
    proof (intro set_eqI iffI)
      fix k assume "k \<in> {pref @ s |s. item nd s \<noteq> None}"
      then obtain s where s: "k = p @ q @ s" "item nd s \<noteq> None" using q(1) by auto
      have "prefix p k" using s(1) by simp
      from q(3) [OF this] s show "k \<in> {k. HasItem t k \<and> prefix p k}"
        by (simp add: HasItem_item)
    next
      fix k assume "k \<in> {k. HasItem t k \<and> prefix p k}"
      then have h: "item (root t) k \<noteq> None" and pk: "prefix p k" by (simp_all add: HasItem_item)
      from q(3) [OF pk] h have pq: "prefix (p @ q) k" and it: "item nd (drop (length (p @ q)) k) \<noteq> None"
        by (auto split: if_splits)
      from pq obtain s where "k = (p @ q) @ s" by (auto simp: prefix_def)
      with it show "k \<in> {pref @ s |s. item nd s \<noteq> None}" using q(1) by auto
    qed
    ultimately show ?thesis by (intro exI [of _ "keys_below nd pref"]) simp
  qed
  then obtain ks where ks: "\<forall>fuel. size (root t) < fuel \<longrightarrow> Keys fuel t p = Some ks" "distinct ks"
    "set ks = {k. HasItem t k \<and> prefix p k}" by blast
  have "(\<forall>k. HasItem t k \<longrightarrow> \<not> prefix p k) \<longrightarrow> ks = []"
  proof
    assume "\<forall>k. HasItem t k \<longrightarrow> \<not> prefix p k"
    then have "set ks = {}" unfolding ks(3) by blast
    then show "ks = []" by simp
  qed
  with ks show ?thesis by blast
qed

theorem Keys_prefix_witness:
  "reachable (InsertItem (InsertItem (InsertItem NewTrie ''hello'' None) ''home'' None) ''homework'' None) \<and>
   Keys 30 (InsertItem (InsertItem (InsertItem NewTrie ''hello'' None) ''home'' None) ''homework'' None) ''hom''
     = Some [''home'', ''homework''] \<and>
   {k. HasItem (InsertItem (InsertItem (InsertItem NewTrie ''hello'' None) ''home'' None) ''homework'' None) k \<and>
       prefix ''hom'' k} = {''home'', ''homework''} \<and>
   Keys 30 (InsertItem (InsertItem (InsertItem NewTrie ''hello'' None) ''home'' None) ''homework'' None) ''x''
     = Some []"
proof -
  let ?t = "InsertItem (InsertItem (InsertItem NewTrie ''hello'' None) ''home'' None) ''homework'' None"
  have r: "reachable ?t" by (intro reachable.intros)
  have sz: "size (root ?t) < 30" by code_simp
  have k1: "Keys 30 ?t ''hom'' = Some [''home'', ''homework'']" by code_simp
  have k2: "Keys 30 ?t ''x'' = Some []" by code_simp
  from Keys_prefix [OF r, of "''hom''"] obtain ks where
    ks: "\<forall>fuel. size (root ?t) < fuel \<longrightarrow> Keys fuel ?t ''hom'' = Some ks"
        "set ks = {k. HasItem ?t k \<and> prefix ''hom'' k}" by blast
  from ks(1) sz have "Keys 30 ?t ''hom'' = Some ks" by blast
  with k1 have "ks = [''home'', ''homework'']" by simp
  with ks(2) have "{k. HasItem ?t k \<and> prefix ''hom'' k} = {''home'', ''homework''}" by auto
  with r k1 k2 show ?thesis by blast
qed

subsection \<open>C7: compaction after every operation\<close>

text \<open>
  C7 states that no node below the root is left with \<^verbatim>\<open>isLeaf = false\<close> and fewer than two
  outgoing edges.  At the end of the key \<^verbatim>\<open>delete\<close> unlinks the node only when its map
  is nil, not when it is empty: a node that once had children stays in the tree.  After
  inserting \<open>a\<close> and \<open>ab\<close> and deleting \<open>ab\<close> and then \<open>a\<close>, the node that \<^verbatim>\<open>getNode\<close>
  finds at \<open>a\<close> is a non-leaf without edges.
\<close>

theorem delete_leaves_dead_node:
  "DeleteItem (InsertItem (InsertItem NewTrie ''a'' (Some ''1'')) ''ab'' (Some ''2'')) ''ab''
     = Inr \<lparr>root = Node False (Some [(CHR ''a'', Edge ''a'' (Node True (Some []) (Some ''1'')))]) None,
            sorted_flag = False\<rparr> \<and>
   DeleteItem \<lparr>root = Node False (Some [(CHR ''a'', Edge ''a'' (Node True (Some []) (Some ''1'')))]) None,
               sorted_flag = False\<rparr> ''a''
     = Inr \<lparr>root = Node False (Some [(CHR ''a'', Edge ''a'' (Node False (Some []) (Some ''1'')))]) None,
            sorted_flag = False\<rparr> \<and>
   getNode \<lparr>root = Node False (Some [(CHR ''a'', Edge ''a'' (Node False (Some []) (Some ''1'')))]) None,
            sorted_flag = False\<rparr> ''a''
     = Some (Node False (Some []) (Some ''1''))"
  by code_simp

subsection \<open>C8: sorted traversal is deterministic\<close>

text \<open>
  C8 states that with the sorted flag two traversals call the callback with the same
  sequence of arguments, also for any two tries that hold the same key set.  The order
  of the insertions makes no difference (see below), but a deletion does: the callback
  is called on every node with the node's \<^verbatim>\<open>data\<close> field, and \<^verbatim>\<open>delete\<close> clears
  \<^verbatim>\<open>isLeaf\<close> only.  The trie built from \<open>ab\<close> and \<open>ac\<close>, and the trie built from \<open>a\<close>, \<open>ab\<close>
  and \<open>ac\<close> from which \<open>a\<close> was deleted, store the same keys with the same data, but the
  callback sees nil data at the node \<open>a\<close> of the first and the old data of \<open>a\<close> at that
  node of the second.
\<close>

theorem Traverse_same_keys_counterexample:
  "Keys 9 (InsertItem (InsertItem NewTrie ''ab'' (Some ''1'')) ''ac'' (Some ''2'')) [] = Some [''ab'', ''ac''] \<and>
   DeleteItem (InsertItem (InsertItem (InsertItem NewTrie ''a'' (Some ''0'')) ''ab'' (Some ''1'')) ''ac'' (Some ''2'')) ''a''
     = Inr \<lparr>root = Node False (Some [(CHR ''a'', Edge ''a'' (Node False
                (Some [(CHR ''b'', Edge ''b'' (Node True None (Some ''1''))),
                       (CHR ''c'', Edge ''c'' (Node True None (Some ''2'')))]) (Some ''0'')))]) None,
            sorted_flag = False\<rparr> \<and>
   Keys 9 \<lparr>root = Node False (Some [(CHR ''a'', Edge ''a'' (Node False
                (Some [(CHR ''b'', Edge ''b'' (Node True None (Some ''1''))),
                       (CHR ''c'', Edge ''c'' (Node True None (Some ''2'')))]) (Some ''0'')))]) None,
            sorted_flag = False\<rparr> [] = Some [''ab'', ''ac''] \<and>
   Traverse (Sorted (InsertItem (InsertItem NewTrie ''ab'' (Some ''1'')) ''ac'' (Some ''2'')) True) record_call []
     = Inr ([(0, [], None, False), (1, ''a'', None, False),
             (2, ''ab'', Some ''1'', True), (2, ''ac'', Some ''2'', True)], None) \<and>
   Traverse (Sorted \<lparr>root = Node False (Some [(CHR ''a'', Edge ''a'' (Node False
                (Some [(CHR ''b'', Edge ''b'' (Node True None (Some ''1''))),
                       (CHR ''c'', Edge ''c'' (Node True None (Some ''2'')))]) (Some ''0'')))]) None,
            sorted_flag = False\<rparr> True) record_call []
     = Inr ([(0, [], None, False), (1, ''a'', Some ''0'', False),
             (2, ''ab'', Some ''1'', True), (2, ''ac'', Some ''2'', True)], None)"
  by code_simp

text \<open>
  C8 as amended: in a reachable state with the sorted flag set, \<^verbatim>\<open>Traverse\<close> returns
  without a panic and does not depend on the iteration order of the maps.  With a
  callback that lets the traversal go on, the callback is called exactly once for every
  node, with the node's depth in edges, its path, its data and its leaf flag, and the
  calls come in strictly ascending lexicographic order of the paths: a node before the
  nodes below it, and the children of a node in ascending order of their map key, which
  is the first byte of the edge's label.  Two tries built by insertions only, in any
  order, that store the same keys with the same data give the same sequence of calls
  and the same result.
\<close>

theorem Traverse_sorted_deterministic:
  assumes "reachable t" "sorted_flag t"
  shows "(\<exists>res. Traverse t fn s = Inr res) \<and>
         (\<forall>r. same_node (root t) r \<longrightarrow> Traverse (t\<lparr>root := r\<rparr>) fn s = Traverse t fn s) \<and>
         (\<exists>calls. Traverse t record_call cs = Inr (cs @ calls, None) \<and>
                  sorted_wrt (<) (map (\<lambda>c. fst (snd c)) calls) \<and>
                  set calls = {(hops (root t) p, p, data n, isLeaf n) |p n. getNode t p = Some n}) \<and>
         (\<forall>p nd. getNode t p = Some nd \<longrightarrow>
            sorted_wrt (<) (keys (edges nd) True) \<and>
            (\<forall>k \<in> set (keys (edges nd) True).
               \<exists>e. lookup_edge (edges nd) k = Some e \<and> hd (label e) = k)) \<and>
         (\<forall>t2. insert_built t \<and> insert_built t2 \<and> sorted_flag t2 \<and>
               (\<forall>k. HasItem t2 k = HasItem t k) \<and>
               (\<forall>k. HasItem t k \<longrightarrow> GetItem t2 k = GetItem t k) \<longrightarrow>
               Traverse t2 fn s = Traverse t fn s)"
proof (intro conjI allI impI)
  have inv: "invar (root t)" using assms(1) by (rule reachable_invar)
  show "\<exists>res. Traverse t fn s = Inr res"
    unfolding Traverse_def by (rule traverse_returns(1))
  show "Traverse (t\<lparr>root := r\<rparr>) fn s = Traverse t fn s" if "same_node (root t) r" for r
    using traverse_same_node [OF that, of 0 "[]" fn s] assms(2) by (simp add: Traverse_def)
  show "\<exists>calls. Traverse t record_call cs = Inr (cs @ calls, None) \<and>
                  sorted_wrt (<) (map (\<lambda>c. fst (snd c)) calls) \<and>
                  set calls = {(hops (root t) p, p, data n, isLeaf n) |p n. getNode t p = Some n}"
  proof (intro exI [of _ "visits True (root t) 0 []"] conjI)
    show "Traverse t record_call cs = Inr (cs @ visits True (root t) 0 [], None)"
      using assms(2) by (simp add: Traverse_def traverse_record_call)
    show "sorted_wrt (<) (map (\<lambda>c. fst (snd c)) (visits True (root t) 0 []))"
      using inv by (rule visits_paths_sorted)
    show "set (visits True (root t) 0 []) =
          {(hops (root t) p, p, data n, isLeaf n) |p n. getNode t p = Some n}"
      using visits_set [OF inv, of True 0 "[]"] by (simp add: getNode_def)
  qed
next
  fix p nd assume nd: "getNode t p = Some nd"
  have inv: "invar nd"
    using nd reachable_invar [OF assms(1)] by (auto simp: getNode_def dest: getNode_loop_invar)
  have "distinct (map fst (edge_list (edges nd)))" using inv by (rule invar_distinct)
  then show "sorted_wrt (<) (keys (edges nd) True)"
    by (simp add: keys_def strict_sorted_iff)
  show "\<forall>k \<in> set (keys (edges nd) True). \<exists>e. lookup_edge (edges nd) k = Some e \<and> hd (label e) = k"
  proof
    fix k assume "k \<in> set (keys (edges nd) True)"
    then have "lookup_edge (edges nd) k \<noteq> None" by (simp add: set_keys lookup_edge_None_iff)
    then obtain e where e: "lookup_edge (edges nd) k = Some e" by auto
    from invarD [OF inv e] e show "\<exists>e. lookup_edge (edges nd) k = Some e \<and> hd (label e) = k" by simp
  qed
next
  fix t2
  assume a: "insert_built t \<and> insert_built t2 \<and> sorted_flag t2 \<and>
               (\<forall>k. HasItem t2 k = HasItem t k) \<and>
               (\<forall>k. HasItem t k \<longrightarrow> GetItem t2 k = GetItem t k)"
  then have "same_node (root t2) (root t)" by (intro insert_built_same_node) auto
  from traverse_same_node [OF this, of 0 "[]" fn s] a assms(2)
  show "Traverse t2 fn s = Traverse t fn s" by (simp add: Traverse_def)
qed

theorem Traverse_sorted_deterministic_witness:
  "reachable (Sorted (InsertItem (InsertItem (InsertItem NewTrie ''hello'' (Some ''1'')) ''home'' (Some ''2''))
       ''hi'' (Some ''3'')) True) \<and>
   sorted_flag (Sorted (InsertItem (InsertItem (InsertItem NewTrie ''hello'' (Some ''1'')) ''home'' (Some ''2''))
       ''hi'' (Some ''3'')) True) \<and>
   Traverse (Sorted (InsertItem (InsertItem (InsertItem NewTrie ''hello'' (Some ''1'')) ''home'' (Some ''2''))
       ''hi'' (Some ''3'')) True) record_call []
     = Inr ([(0, [], None, False), (1, ''h'', None, False), (2, ''hello'', Some ''1'', True),
             (2, ''hi'', Some ''3'', True), (2, ''home'', Some ''2'', True)], None) \<and>
   sorted_wrt (<) [[], ''h'', ''hello'', ''hi'', ''home''] \<and>
   set [(0, [], None, False), (1, ''h'', None, False), (2, ''hello'', Some ''1'', True),
        (2, ''hi'', Some ''3'', True), (2, ''home'', Some ''2'', True)]
     = {(hops (root (Sorted (InsertItem (InsertItem (InsertItem NewTrie ''hello'' (Some ''1'')) ''home'' (Some ''2''))
            ''hi'' (Some ''3'')) True)) p, p, data n, isLeaf n) |p n.
        getNode (Sorted (InsertItem (InsertItem (InsertItem NewTrie ''hello'' (Some ''1'')) ''home'' (Some ''2''))
            ''hi'' (Some ''3'')) True) p = Some n} \<and>
   keys (edges (Node False (Some [(CHR ''e'', Edge ''ello'' (Node True None (Some ''1''))),
                                  (CHR ''o'', Edge ''ome'' (Node True None (Some ''2''))),
                                  (CHR ''i'', Edge ''i'' (Node True None (Some ''3'')))]) None)) True
     = [CHR ''e'', CHR ''i'', CHR ''o''] \<and>
   same_node (root (Sorted (InsertItem (InsertItem (InsertItem NewTrie ''hello'' (Some ''1'')) ''home'' (Some ''2''))
       ''hi'' (Some ''3'')) True))
     (Node False (Some [(CHR ''h'', Edge ''h'' (Node False
        (Some [(CHR ''i'', Edge ''i'' (Node True None (Some ''3''))),
               (CHR ''o'', Edge ''ome'' (Node True None (Some ''2''))),
               (CHR ''e'', Edge ''ello'' (Node True None (Some ''1'')))]) None))]) None) \<and>
   Traverse ((Sorted (InsertItem (InsertItem (InsertItem NewTrie ''hello'' (Some ''1'')) ''home'' (Some ''2''))
       ''hi'' (Some ''3'')) True)
       \<lparr>root := Node False (Some [(CHR ''h'', Edge ''h'' (Node False
        (Some [(CHR ''i'', Edge ''i'' (Node True None (Some ''3''))),
               (CHR ''o'', Edge ''ome'' (Node True None (Some ''2''))),
               (CHR ''e'', Edge ''ello'' (Node True None (Some ''1'')))]) None))]) None\<rparr>) record_call []
     = Traverse (Sorted (InsertItem (InsertItem (InsertItem NewTrie ''hello'' (Some ''1'')) ''home'' (Some ''2''))
       ''hi'' (Some ''3'')) True) record_call [] \<and>
   insert_built (Sorted (InsertItem (InsertItem (InsertItem NewTrie ''hello'' (Some ''1'')) ''home'' (Some ''2''))
       ''hi'' (Some ''3'')) True) \<and>
   insert_built (Sorted (InsertItem (InsertItem (InsertItem (InsertItem NewTrie ''hi'' (Some ''0'')) ''home'' (Some ''2''))
       ''hi'' (Some ''3'')) ''hello'' (Some ''1'')) True) \<and>
   Traverse (Sorted (InsertItem (InsertItem (InsertItem (InsertItem NewTrie ''hi'' (Some ''0'')) ''home'' (Some ''2''))
       ''hi'' (Some ''3'')) ''hello'' (Some ''1'')) True) record_call []
     = Traverse (Sorted (InsertItem (InsertItem (InsertItem NewTrie ''hello'' (Some ''1'')) ''home'' (Some ''2''))
       ''hi'' (Some ''3'')) True) record_call []"
proof -
  let ?a = "InsertItem (InsertItem (InsertItem NewTrie ''hello'' (Some ''1'')) ''home'' (Some ''2''))
       ''hi'' (Some ''3'')"
  let ?b = "InsertItem (InsertItem (InsertItem (InsertItem NewTrie ''hi'' (Some ''0'')) ''home'' (Some ''2''))
       ''hi'' (Some ''3'')) ''hello'' (Some ''1'')"
  let ?t = "Sorted ?a True"
  let ?t2 = "Sorted ?b True"
  let ?hn = "Node False (Some [(CHR ''e'', Edge ''ello'' (Node True None (Some ''1''))),
                                  (CHR ''o'', Edge ''ome'' (Node True None (Some ''2''))),
                                  (CHR ''i'', Edge ''i'' (Node True None (Some ''3'')))]) None"
  let ?r = "Node False (Some [(CHR ''h'', Edge ''h'' (Node False
        (Some [(CHR ''i'', Edge ''i'' (Node True None (Some ''3''))),
               (CHR ''o'', Edge ''ome'' (Node True None (Some ''2''))),
               (CHR ''e'', Edge ''ello'' (Node True None (Some ''1'')))]) None))]) None"
  let ?calls = "[(0, [], None, False), (1, ''h'', None, False), (2, ''hello'', Some ''1'', True),
             (2, ''hi'', Some ''3'', True), (2, ''home'', Some ''2'', True)]"
  have r: "reachable ?t" by (intro reachable.intros)
  have f: "sorted_flag ?t" by (simp add: Sorted_def)
  have b1: "insert_built ?t" by (intro insert_built.intros)
  have b2: "insert_built ?t2" by (intro insert_built.intros)
  have f2: "sorted_flag ?t2" by (simp add: Sorted_def)
  have rt: "root ?t = Node False (Some [(CHR ''h'', Edge ''h'' ?hn)]) None" by code_simp
  have sn: "same_node (root ?t) ?r" unfolding rt by simp
  have tr: "Traverse ?t record_call [] = Inr (?calls, None)" by code_simp
  have gh: "getNode ?t ''h'' = Some ?hn" by code_simp
  have items: "item (root ?t2) k = item (root ?t) k" for k
    by (simp add: item_Sorted item_InsertItem item_NewTrie reach_new reach_insert)
  have same: "\<forall>k. HasItem ?t2 k = HasItem ?t k" by (simp add: HasItem_item items)
  have get: "\<forall>k. HasItem ?t k \<longrightarrow> GetItem ?t2 k = GetItem ?t k"
    by (auto simp: HasItem_item items [symmetric] GetItem_item)
  note T = Traverse_sorted_deterministic [OF r f, of record_call "[]" "[]"]
  from T obtain calls where c: "Traverse ?t record_call [] = Inr ([] @ calls, None)"
    "sorted_wrt (<) (map (\<lambda>c. fst (snd c)) calls)"
    "set calls = {(hops (root ?t) p, p, data n, isLeaf n) |p n. getNode ?t p = Some n}" by blast
  from c(1) tr have calls: "calls = ?calls" by simp
  from c(2) have 1: "sorted_wrt (<) [[], ''h'', ''hello'', ''hi'', ''home'']" unfolding calls by simp
  from c(3) have 2: "set ?calls = {(hops (root ?t) p, p, data n, isLeaf n) |p n. getNode ?t p = Some n}"
    unfolding calls .
  from T gh have "sorted_wrt (<) (keys (edges ?hn) True)" by blast
  have 3: "keys (edges ?hn) True = [CHR ''e'', CHR ''i'', CHR ''o'']" by code_simp
  from T sn have 4: "Traverse (?t\<lparr>root := ?r\<rparr>) record_call [] = Traverse ?t record_call []" by blast
  from T b1 b2 f2 same get have 5: "Traverse ?t2 record_call [] = Traverse ?t record_call []" by blast
  from r f tr 1 2 3 sn 4 b1 b2 5 show ?thesis by blast
qed

subsection \<open>C9: insertion leaves the other keys alone\<close>

text \<open>
  C9 states that \<^verbatim>\<open>InsertItem(k, d)\<close> changes the result of neither \<^verbatim>\<open>HasItem(k2)\<close> nor
  \<^verbatim>\<open>GetItem(k2)\<close> for any other key \<open>k2\<close>.  With \<open>abcd\<close> stored, \<^verbatim>\<open>GetItem("ab")\<close>
  dereferences nil; inserting \<open>abxy\<close> splits the edge at \<open>ab\<close>, and \<^verbatim>\<open>GetItem("ab")\<close> then
  returns the nil data of the new node.
\<close>

theorem InsertItem_frame_counterexample:
  "GetItem (InsertItem NewTrie ''abcd'' (Some ''v'')) ''ab'' = Inl NilDereference \<and>
   GetItem (InsertItem (InsertItem NewTrie ''abcd'' (Some ''v'')) ''abxy'' (Some ''w'')) ''ab'' = Inr None"
  by code_simp

text \<open>
  C9 as amended: in every reachable state and for keys \<open>k \<noteq> k2\<close>, \<^verbatim>\<open>InsertItem(k, d)\<close>
  leaves \<^verbatim>\<open>HasItem(k2)\<close> unchanged, and leaves \<^verbatim>\<open>GetItem(k2)\<close> unchanged when \<open>k2\<close> is
  stored.
\<close>

theorem InsertItem_frame:
  assumes "reachable t" "k \<noteq> k2"
  shows "HasItem (InsertItem t k d) k2 = HasItem t k2 \<and>
         (HasItem t k2 \<longrightarrow> GetItem (InsertItem t k d) k2 = GetItem t k2)"
proof (cases "k = []")
  case True
  then show ?thesis by (simp add: InsertItem_def)
next
  case False
  have inv: "invar (root t)" using assms(1) by (rule reachable_invar)
  from InsertItem_loop_correct [OF inv False, of d] assms(2)
  have eq: "item (root (InsertItem t k d)) k2 = item (root t) k2" by (auto simp: InsertItem_def)
  then have "HasItem (InsertItem t k d) k2 = HasItem t k2" by (simp add: HasItem_item)
  moreover have "GetItem (InsertItem t k d) k2 = GetItem t k2" if "HasItem t k2"
  proof -
    from that obtain v where v: "item (root t) k2 = Some v" by (auto simp: HasItem_item)
    with eq show ?thesis by (simp add: GetItem_item)
  qed
  ultimately show ?thesis by blast
qed

theorem InsertItem_frame_witness:
  "reachable (InsertItem NewTrie ''abcd'' (Some ''v'')) \<and> ''abxy'' \<noteq> ''abcd'' \<and>
   HasItem (InsertItem NewTrie ''abcd'' (Some ''v'')) ''abcd'' \<and>
   HasItem (InsertItem (InsertItem NewTrie ''abcd'' (Some ''v'')) ''abxy'' (Some ''w'')) ''abcd'' \<and>
   GetItem (InsertItem (InsertItem NewTrie ''abcd'' (Some ''v'')) ''abxy'' (Some ''w'')) ''abcd''
     = GetItem (InsertItem NewTrie ''abcd'' (Some ''v'')) ''abcd''"
proof -
  let ?t = "InsertItem NewTrie ''abcd'' (Some ''v'')"
  have r: "reachable ?t" by (intro reachable.intros)
  have n: "''abxy'' \<noteq> ''abcd''" by simp
  have h: "HasItem ?t ''abcd''" by code_simp
  from InsertItem_frame [OF r n, of "Some ''w''"] r n h show ?thesis by blast
qed

subsection \<open>C10: the empty key\<close>

text \<open>
  C10: \<^verbatim>\<open>InsertItem("", d)\<close> leaves the trie unchanged for every \<open>d\<close>, and in every
  reachable state \<^verbatim>\<open>HasItem("")\<close> is false, because the root never becomes a leaf.
\<close>

theorem empty_key: "InsertItem t [] d = t \<and> (reachable t \<longrightarrow> \<not> HasItem t [])"
  by (simp add: InsertItem_def HasItem_def getNode_def reachable_root_not_leaf)

theorem empty_key_witness:
  "InsertItem (InsertItem NewTrie ''a'' None) [] (Some ''x'') = InsertItem NewTrie ''a'' None \<and>
   \<not> HasItem (InsertItem NewTrie ''a'' None) []"
  using empty_key [of "InsertItem NewTrie ''a'' None" "Some ''x''"]
  by (simp add: reach_new reach_insert)


end
